theory Spec2Isabelle
  imports Main "HOL-Library.Word"
begin

section \<open>Data model\<close>

text \<open>
  Go's \<open>int64\<close>, and \<open>int\<close> on a 64-bit platform, is a 64-bit word read as two's
  complement: \<open>+\<close> wraps, \<open><s\<close> is the signed comparison.
\<close>

type_synonym int64 = "64 word"

text \<open>\<open>TokenResponse\<close>: the response of the AWS EKS get-token command.\<close>

record TokenResponse =
  Token :: string
  Expiry :: int64

text \<open>
  \<open>exec.Command(name, args...)\<close> with the entries the code appends to \<open>os.Environ()\<close>.
\<close>

datatype command = Command (argv: "string list") (extra_env: "string list")

text \<open>The two errors \<open>strconv.Atoi\<close> reports, with the text it was given.\<close>

datatype num_cause = ErrSyntax | ErrRange

datatype num_error = NumError string num_cause

datatype error =
    ExecError string
  | UnmarshalError string
  | ErrTooLong
  | ParseCountError string num_error
  | PostError string
  | PushGatewayError string

text \<open>What the program prints, one constructor per \<open>fmt.Print\<close> call of the source.\<close>

datatype line =
    Starting
  | FetchingRunningPods
  | RunningPodsFound "string list"
  | ErrorFetchingPods error
  | UsingCachedToken
  | FetchingNewToken
  | NewTokenCached int64
  | ErrorFetchingToken error
  | CountingIn string
  | CountFor string int64
  | FailedCount string error
  | TotalCounted int64
  | CompletedIn
  | SendingTotal int64
  | SentToPushGateway

text \<open>The observable trace: commands run, HTTP requests sent, lines printed.\<close>

datatype event =
    Exec command
  | HttpPost string string string
  | Print line

text \<open>
  The collaborators outside the program: what \<open>cmd.Output()\<close> returns for a command
  (every command is taken to return, and a command run twice to return the same),
  what \<open>json.Unmarshal\<close> into a \<open>TokenResponse\<close> returns for a text, the successive
  readings of \<open>time.Now().Unix()\<close>, and the status code and body (or the transport error)
  of \<open>http.Post\<close> for a URL, content type and body.
\<close>

record world =
  cmd_output :: "command \<Rightarrow> error + string"
  json_unmarshal :: "string \<Rightarrow> error + TokenResponse"
  time_now_unix :: "nat \<Rightarrow> int64"
  http_post :: "string \<Rightarrow> string \<Rightarrow> string \<Rightarrow> error + (int \<times> string)"

text \<open>
  The state of the process outside the fan-out: the global \<open>tokenCache\<close> (\<open>None\<close> is
  \<open>nil\<close>), how many times the clock has been read, and the trace so far.
\<close>

record proc =
  tokenCache :: "TokenResponse option"
  clock_reads :: nat
  log :: "event list"

section \<open>Constants\<close>

definition namespace :: string where
  "namespace = ''fpms''"

definition targetPort :: string where
  "targetPort = ''9280''"

definition pushGateway :: string where
  "pushGateway = ''http://k8s-monitori-pushgate-fcae943c1e-e1a58b32cb8c6cce.elb.ap-southeast-1.amazonaws.com/metrics/job/client_tcp_new''"

definition maxConcurrentConnections :: nat where
  "maxConcurrentConnections = 100"

definition clusterName :: string where
  "clusterName = ''fpms-prod''"

text \<open>\<open>cacheTTL = 5 * time.Minute\<close>, a \<open>time.Duration\<close> in nanoseconds.\<close>

definition cacheTTL :: int where
  "cacheTTL = 5 * (60 * 1000000000)"

text \<open>
  \<open>int64(d.Seconds())\<close>: the whole seconds of a duration (for \<open>cacheTTL\<close> the
  floating-point quotient is exactly 300).
\<close>

definition Seconds :: "int \<Rightarrow> int64" where
  "Seconds d = word_of_int (sgn d * (\<bar>d\<bar> div 1000000000))"

section \<open>Credential cache: getToken\<close>

definition get_token_cmd :: command where
  "get_token_cmd =
     Command [''aws'', ''eks'', ''get-token'', ''--cluster-name'', clusterName,
              ''--output'', ''json''] []"

text \<open>
  Line 47: \<open>tokenCache != nil && time.Now().Unix() < tokenCache.Expiry\<close>. The clock is
  read only when the cache is not \<open>nil\<close>.
\<close>

definition cache_valid :: "world \<Rightarrow> proc \<Rightarrow> bool" where
  "cache_valid w s =
     (case tokenCache s of
        None \<Rightarrow> False
      | Some tc \<Rightarrow> time_now_unix w (clock_reads s) <s Expiry tc)"

text \<open>
  Lines 52 to 72: the external fetch. The expiry stored is the clock reading at the
  store plus \<open>cacheTTL\<close>; the expiry in the response is not used.
\<close>

definition fetch_token :: "world \<Rightarrow> proc \<Rightarrow> (error + string) \<times> proc" where
  "fetch_token w s =
     (let s1 = s\<lparr>log := log s @ [Print FetchingNewToken, Exec get_token_cmd]\<rparr> in
      case cmd_output w get_token_cmd of
        Inl err \<Rightarrow> (Inl err, s1)
      | Inr output \<Rightarrow>
          (case json_unmarshal w output of
             Inl err \<Rightarrow> (Inl err, s1)
           | Inr response \<Rightarrow>
               (let tc = \<lparr>Token = Token response,
                          Expiry = time_now_unix w (clock_reads s1) + Seconds cacheTTL\<rparr>;
                    s2 = s1\<lparr>tokenCache := Some tc,
                            clock_reads := Suc (clock_reads s1),
                            log := log s1 @ [Print (NewTokenCached (Expiry tc))]\<rparr>
                in (Inr (Token tc), s2))))"

text \<open>
  \<open>getToken\<close> holds \<open>cacheMutex\<close> from entry to return, so it runs as one step on the
  process state. It returns the error or the token, and the state it leaves.
\<close>

definition getToken :: "world \<Rightarrow> proc \<Rightarrow> (error + string) \<times> proc" where
  "getToken w s =
     (case tokenCache s of
        None \<Rightarrow> fetch_token w s
      | Some tc \<Rightarrow>
          (let s1 = s\<lparr>clock_reads := Suc (clock_reads s)\<rparr> in
           if time_now_unix w (clock_reads s) <s Expiry tc
           then (Inr (Token tc), s1\<lparr>log := log s1 @ [Print UsingCachedToken]\<rparr>)
           else fetch_token w s1))"

text \<open>The external fetch fails: the command fails, or its output does not parse.\<close>

definition fetch_fails :: "world \<Rightarrow> error \<Rightarrow> bool" where
  "fetch_fails w err =
     (case cmd_output w get_token_cmd of
        Inl e \<Rightarrow> e = err
      | Inr output \<Rightarrow> json_unmarshal w output = Inl err)"

text \<open>The external fetch succeeds with this response.\<close>

definition fetch_gives :: "world \<Rightarrow> TokenResponse \<Rightarrow> bool" where
  "fetch_gives w response =
     (case cmd_output w get_token_cmd of
        Inl e \<Rightarrow> False
      | Inr output \<Rightarrow> json_unmarshal w output = Inr response)"

text \<open>The clock reading made last in a state.\<close>

definition last_reading :: "world \<Rightarrow> proc \<Rightarrow> int64" where
  "last_reading w s = time_now_unix w (clock_reads s - 1)"

text \<open>The \<open>Exec\<close> events of a trace: the external commands it ran.\<close>

fun execs :: "event list \<Rightarrow> command list" where
  "execs [] = []"
| "execs (Exec c # es) = c # execs es"
| "execs (e # es) = execs es"

section \<open>Text: white space, lines, fields, numbers\<close>

text \<open>
  Go strings are byte sequences, here \<open>string\<close> (a list of 8-bit \<open>char\<close>).
  \<open>unicode.IsSpace\<close> holds for six ASCII bytes and for the runes U+0085, U+00A0,
  U+1680, U+2000 to U+200A, U+2028, U+2029, U+202F, U+205F and U+3000, listed below in
  their UTF-8 encoding. No encoding starts with a continuation byte, so reading the text
  byte by byte and recognising these sequences agrees with decoding it rune by rune.
\<close>

definition space_runes :: "string list" where
  "space_runes =
     [[CHR 0x09], [CHR 0x0A], [CHR 0x0B], [CHR 0x0C], [CHR 0x0D], [CHR 0x20],
      [CHR 0xC2, CHR 0x85], [CHR 0xC2, CHR 0xA0], [CHR 0xE1, CHR 0x9A, CHR 0x80],
      [CHR 0xE2, CHR 0x80, CHR 0x80], [CHR 0xE2, CHR 0x80, CHR 0x81],
      [CHR 0xE2, CHR 0x80, CHR 0x82], [CHR 0xE2, CHR 0x80, CHR 0x83],
      [CHR 0xE2, CHR 0x80, CHR 0x84], [CHR 0xE2, CHR 0x80, CHR 0x85],
      [CHR 0xE2, CHR 0x80, CHR 0x86], [CHR 0xE2, CHR 0x80, CHR 0x87],
      [CHR 0xE2, CHR 0x80, CHR 0x88], [CHR 0xE2, CHR 0x80, CHR 0x89],
      [CHR 0xE2, CHR 0x80, CHR 0x8A], [CHR 0xE2, CHR 0x80, CHR 0xA8],
      [CHR 0xE2, CHR 0x80, CHR 0xA9], [CHR 0xE2, CHR 0x80, CHR 0xAF],
      [CHR 0xE2, CHR 0x81, CHR 0x9F], [CHR 0xE3, CHR 0x80, CHR 0x80]]"

text \<open>The first rune of the list the text starts with, if any.\<close>

fun starts_with_any :: "string list \<Rightarrow> string \<Rightarrow> string option" where
  "starts_with_any [] s = None"
| "starts_with_any (r # rs) s =
     (if r \<noteq> [] \<and> take (length r) s = r then Some r else starts_with_any rs s)"

text \<open>The width in bytes of the white space rune the text starts with, 0 if none.\<close>

definition leading_space :: "string \<Rightarrow> nat" where
  "leading_space s =
     (case starts_with_any space_runes s of None \<Rightarrow> 0 | Some r \<Rightarrow> length r)"

text \<open>The same for the rune the text ends with.\<close>

definition trailing_space :: "string \<Rightarrow> nat" where
  "trailing_space s =
     (case starts_with_any (map rev space_runes) (rev s) of
        None \<Rightarrow> 0
      | Some r \<Rightarrow> length r)"

function TrimLeft :: "string \<Rightarrow> string" where
  "TrimLeft s =
     (if leading_space s = 0 \<or> s = [] then s else TrimLeft (drop (leading_space s) s))"
  by pat_completeness auto
termination
  by (relation "measure length") (auto simp: Suc_le_eq)

declare TrimLeft.simps [simp del]

function TrimRight :: "string \<Rightarrow> string" where
  "TrimRight s =
     (if trailing_space s = 0 \<or> s = [] then s
      else TrimRight (take (length s - trailing_space s) s))"
  by pat_completeness auto
termination
  by (relation "measure length") (auto simp: Suc_le_eq)

declare TrimRight.simps [simp del]

text \<open>\<open>strings.TrimSpace\<close>: white space removed at the start, then at the end.\<close>

definition TrimSpace :: "string \<Rightarrow> string" where
  "TrimSpace s = TrimRight (TrimLeft s)"

text \<open>The number of bytes before the next white space rune or the end of the text.\<close>

fun field_len :: "string \<Rightarrow> nat" where
  "field_len [] = 0"
| "field_len (c # cs) = (if leading_space (c # cs) = 0 then Suc (field_len cs) else 0)"

text \<open>\<open>strings.Fields\<close>: the maximal runs of bytes that hold no white space rune.\<close>

function Fields :: "string \<Rightarrow> string list" where
  "Fields s =
     (if s = [] then []
      else if leading_space s = 0
        then take (field_len s) s # Fields (drop (field_len s) s)
        else Fields (drop (leading_space s) s))"
  by pat_completeness auto
termination
proof (relation "measure length")
  show "wf (measure length)"
    by simp
next
  fix s :: string
  assume "s \<noteq> []" and "leading_space s = 0"
  then have "0 < field_len s"
    by (cases s) simp_all
  with \<open>s \<noteq> []\<close> show "(drop (field_len s) s, s) \<in> measure length"
    by simp
next
  fix s :: string
  assume "s \<noteq> []" and "leading_space s \<noteq> 0"
  then show "(drop (leading_space s) s, s) \<in> measure length"
    by simp
qed

declare Fields.simps [simp del]

text \<open>
  The lines \<open>bufio.ScanLines\<close> cuts the text into, before the carriage return is
  dropped: the bytes up to each newline, and what follows the last newline unless it is
  empty.
\<close>

function split_lines :: "string \<Rightarrow> string list" where
  "split_lines s =
     (if s = [] then []
      else takeWhile (\<lambda>c. c \<noteq> CHR 0x0A) s
           # split_lines (drop 1 (dropWhile (\<lambda>c. c \<noteq> CHR 0x0A) s)))"
  by pat_completeness auto
termination
proof (relation "measure length")
  show "wf (measure length)"
    by simp
next
  fix s :: string
  assume "s \<noteq> []"
  have "length (dropWhile (\<lambda>c. c \<noteq> CHR 0x0A) s) \<le> length s"
    by (rule length_dropWhile_le)
  moreover have "0 < length s"
    using \<open>s \<noteq> []\<close> by simp
  ultimately show "(drop 1 (dropWhile (\<lambda>c. c \<noteq> CHR 0x0A) s), s) \<in> measure length"
    by (simp del: length_greater_0_conv)
qed

declare split_lines.simps [simp del]

text \<open>\<open>dropCR\<close> of package bufio: one trailing carriage return is removed.\<close>

definition dropCR :: "string \<Rightarrow> string" where
  "dropCR l = (if l \<noteq> [] \<and> last l = CHR 0x0D then butlast l else l)"

text \<open>
  \<open>bufio.MaxScanTokenSize\<close>: the scanner's buffer grows to this many bytes. A line that
  leaves no room in it for its newline stops the scan with \<open>ErrTooLong\<close>.
\<close>

definition MaxScanTokenSize :: nat where
  "MaxScanTokenSize = 64 * 1024"

text \<open>The bytes of \<open>\w\<close> in Go's regexp syntax: \<open>[0-9A-Za-z_]\<close>.\<close>

definition word_char :: "char \<Rightarrow> bool" where
  "word_char c =
     (let n = (of_char c :: nat)
      in (48 \<le> n \<and> n \<le> 57) \<or> (65 \<le> n \<and> n \<le> 90) \<or> (97 \<le> n \<and> n \<le> 122) \<or> n = 95)"

text \<open>
  \<open>podRegex.MatchString\<close> for \<open>\bclient\b\<close>: the text holds \<open>client\<close> with no
  \<open>\w\<close> byte right before it and none right after it. The flag says whether the byte
  before the current position is a \<open>\w\<close> byte.
\<close>

fun match_from :: "bool \<Rightarrow> string \<Rightarrow> bool" where
  "match_from prev [] = False"
| "match_from prev (c # cs) =
     ((\<not> prev \<and> take 6 (c # cs) = ''client''
        \<and> (case drop 6 (c # cs) of [] \<Rightarrow> True | d # ds \<Rightarrow> \<not> word_char d))
      \<or> match_from (word_char c) cs)"

definition podRegex_MatchString :: "string \<Rightarrow> bool" where
  "podRegex_MatchString s = match_from False s"

definition is_digit :: "char \<Rightarrow> bool" where
  "is_digit c = (48 \<le> (of_char c :: nat) \<and> (of_char c :: nat) \<le> 57)"

definition digit_val :: "char \<Rightarrow> nat" where
  "digit_val c = of_char c - 48"

text \<open>
  The digit loop of \<open>strconv.ParseUint\<close> in base 10 and 64 bits: a byte that is no
  digit is a syntax error, a value that leaves 64 bits is a range error, whichever the
  loop meets first.
\<close>

fun parse_digits :: "nat \<Rightarrow> string \<Rightarrow> num_cause + nat" where
  "parse_digits n [] = Inr n"
| "parse_digits n (c # cs) =
     (if \<not> is_digit c then Inl ErrSyntax
      else if n \<ge> (2 ^ 64 - 1) div 10 + 1 then Inl ErrRange
      else if n * 10 + digit_val c \<ge> 2 ^ 64 then Inl ErrRange
      else parse_digits (n * 10 + digit_val c) cs)"

text \<open>The text without its sign: \<open>if s[0] == '-' || s[0] == '+' { s = s[1:] }\<close>.\<close>

fun unsigned_part :: "string \<Rightarrow> string" where
  "unsigned_part [] = []"
| "unsigned_part (c # cs) = (if c = CHR ''+'' \<or> c = CHR ''-'' then cs else c # cs)"

text \<open>
  \<open>strconv.Atoi\<close> where \<open>int\<close> has 64 bits: an optional sign, then one digit or more,
  the value within \<open>int\<close>. (Its fast path for short texts computes the same.)
\<close>

definition Atoi :: "string \<Rightarrow> num_error + int64" where
  "Atoi s =
     (let neg = (take 1 s = ''-'');
          ds = unsigned_part s
      in if ds = [] then Inl (NumError s ErrSyntax)
         else
           (case parse_digits 0 ds of
              Inl cause \<Rightarrow> Inl (NumError s cause)
            | Inr un \<Rightarrow>
                if \<not> neg \<and> un \<ge> 2 ^ 63 then Inl (NumError s ErrRange)
                else if neg \<and> un > 2 ^ 63 then Inl (NumError s ErrRange)
                else Inr (if neg then - word_of_nat un else word_of_nat un)))"

text \<open>The number a row of decimal digits denotes.\<close>

definition dec_value :: "string \<Rightarrow> nat" where
  "dec_value ds = foldl (\<lambda>n c. n * 10 + digit_val c) 0 ds"

text \<open>
  The text is a decimal integer with an optional sign, and denotes \<open>i\<close>: after a
  leading \<open>+\<close> or \<open>-\<close>, if any, come one or more digits and nothing else.
\<close>

definition denotes :: "string \<Rightarrow> int \<Rightarrow> bool" where
  "denotes s i =
     (unsigned_part s \<noteq> [] \<and> list_all is_digit (unsigned_part s)
      \<and> i = (if take 1 s = ''-'' then - int (dec_value (unsigned_part s))
              else int (dec_value (unsigned_part s))))"

text \<open>The decimal digits of a number, as \<open>%d\<close> prints them.\<close>

fun nat_digits :: "nat \<Rightarrow> string" where
  "nat_digits n =
     (if n < 10 then [char_of (48 + n)]
      else nat_digits (n div 10) @ [char_of (48 + n mod 10)])"

declare nat_digits.simps [simp del]

definition format_int :: "int64 \<Rightarrow> string" where
  "format_int n =
     (if sint n < 0 then CHR ''-'' # nat_digits (nat (- sint n)) else nat_digits (nat (sint n)))"

section \<open>Target discovery: getPods\<close>

definition get_pods_cmd :: command where
  "get_pods_cmd =
     Command [''kubectl'', ''get'', ''pods'', ''-n'', namespace,
              ''--field-selector=status.phase=Running''] []"

text \<open>
  The loop \<open>for scanner.Scan()\<close> over the lines still to read, with the pods found so
  far. It returns them with \<open>scanner.Err()\<close>.
\<close>

fun scan_pods :: "string list \<Rightarrow> string list \<Rightarrow> string list \<times> error option" where
  "scan_pods pods [] = (pods, None)"
| "scan_pods pods (l # ls) =
     (if length l \<ge> MaxScanTokenSize then (pods, Some ErrTooLong)
      else
        (case Fields (dropCR l) of
           [] \<Rightarrow> scan_pods pods ls
         | f # fs \<Rightarrow>
             if podRegex_MatchString f then scan_pods (pods @ [f]) ls
             else scan_pods pods ls))"

text \<open>
  \<open>getPods\<close> returns both of Go's results: the pods, and the error or \<open>None\<close> for
  \<open>nil\<close>.
\<close>

definition getPods :: "world \<Rightarrow> proc \<Rightarrow> (string list \<times> error option) \<times> proc" where
  "getPods w s =
     (let s1 = s\<lparr>log := log s @ [Print FetchingRunningPods, Exec get_pods_cmd]\<rparr> in
      case cmd_output w get_pods_cmd of
        Inl err \<Rightarrow> (([], Some err), s1)
      | Inr out \<Rightarrow>
          (let r = scan_pods [] (split_lines out)
           in (r, s1\<lparr>log := log s1 @ [Print (RunningPodsFound (fst r))]\<rparr>)))"

text \<open>
  In the words of the specification: the rows of the newline-delimited output, and the
  first white-space-delimited field of each row whose first field matches the pattern,
  in row order.
\<close>

definition rows :: "string \<Rightarrow> string list" where
  "rows out = map dropCR (split_lines out)"

definition eligible_names :: "string list \<Rightarrow> string list" where
  "eligible_names rs =
     concat (map (\<lambda>r. case Fields r of
                          [] \<Rightarrow> []
                        | f # fs \<Rightarrow> if podRegex_MatchString f then [f] else []) rs)"

text \<open>The lines before the first one that does not fit the scanner's buffer.\<close>

definition scanned :: "string list \<Rightarrow> string list" where
  "scanned ls = takeWhile (\<lambda>l. length l < MaxScanTokenSize) ls"

section \<open>Probe executor: countTCPConnections\<close>

definition probe_script :: string where
  "probe_script =
     [CHR 0x0A, CHR 0x09, CHR 0x09] @ ''if ! which netstat > /dev/null; then''
     @ [CHR 0x0A, CHR 0x09, CHR 0x09, CHR 0x09]
     @ ''apt-get update > /dev/null && apt-get install -y net-tools > /dev/null''
     @ [CHR 0x0A, CHR 0x09, CHR 0x09] @ ''fi''
     @ [CHR 0x0A, CHR 0x09, CHR 0x09] @ ''netstat -tn | grep ESTABLISHED | grep ''
     @ [CHR 0x22] @ '':'' @ targetPort @ '' '' @ [CHR 0x22] @ '' | wc -l''"

definition probe_cmd :: "string \<Rightarrow> string \<Rightarrow> command" where
  "probe_cmd pod token =
     Command [''kubectl'', ''exec'', ''-n'', namespace, pod, ''--'', ''sh'', ''-c'', probe_script]
             [''KUBECONFIG='' @ token]"

text \<open>Lines 101 to 111: the line printed and the command started.\<close>

definition count_begin :: "string \<Rightarrow> string \<Rightarrow> event list" where
  "count_begin pod token = [Print (CountingIn pod), Exec (probe_cmd pod token)]"

text \<open>Lines 111 to 123: the command has returned; its output is trimmed and parsed.\<close>

definition count_end :: "world \<Rightarrow> string \<Rightarrow> string \<Rightarrow> (error + int64) \<times> event list" where
  "count_end w pod token =
     (case cmd_output w (probe_cmd pod token) of
        Inl err \<Rightarrow> (Inl err, [])
      | Inr out \<Rightarrow>
          (case Atoi (TrimSpace out) of
             Inl err \<Rightarrow> (Inl (ParseCountError pod err), [])
           | Inr count \<Rightarrow> (Inr count, [Print (CountFor pod count)])))"

definition countTCPConnections ::
  "world \<Rightarrow> string \<Rightarrow> string \<Rightarrow> (error + int64) \<times> event list" where
  "countTCPConnections w pod token =
     (fst (count_end w pod token), count_begin pod token @ snd (count_end w pod token))"

section \<open>Publisher: sendToPushGateway\<close>

definition sendToPushGateway :: "world \<Rightarrow> int64 \<Rightarrow> proc \<Rightarrow> error option \<times> proc" where
  "sendToPushGateway w n s =
     (let data = ''client_tcp_new '' @ format_int n @ [CHR 0x0A];
          s1 = s\<lparr>log := log s @ [Print (SendingTotal n),
                                  HttpPost pushGateway ''text/plain'' data]\<rparr>
      in case http_post w pushGateway ''text/plain'' data of
           Inl err \<Rightarrow> (Some err, s1)
         | Inr (status, body) \<Rightarrow>
             if status \<noteq> 200 then (Some (PushGatewayError body), s1)
             else (None, s1\<lparr>log := log s1 @ [Print SentToPushGateway]\<rparr>))"

section \<open>Fan-out scheduler and aggregator: main\<close>

text \<open>
  The goroutine started for a pod, by the place it has reached. Each carries its
  argument \<open>p\<close>; after the probe it carries \<open>tcpCount\<close>, and between reading and
  writing \<open>totalTCPConnections\<close> the value it read.
\<close>

datatype goroutine =
    GStart string
  | GProbe string
  | GLock string int64
  | GLoad string int64
  | GStore string int64 int64
  | GUnlock string
  | GRelease string
  | GDone string
  | GExit string

text \<open>
  Where \<open>main\<close> is from line 169 on: at the head of the loop with the pods still to
  range over, at the channel send, at the \<open>go\<close> statement, at \<open>wg.Wait()\<close>, returned,
  or stopped by a panic.
\<close>

datatype main_pc =
    MLoop "string list"
  | MSend string "string list"
  | MGo string "string list"
  | MWait
  | MDone
  | MPanic

text \<open>
  The shared state of the fan-out: the token the goroutines capture, the capacity of the
  channel \<open>workers\<close> and the number of elements in it, the counter of the wait group,
  whether \<open>mu\<close> is locked, the running total, the goroutines in the order they were
  started, and the trace.
\<close>

record sched =
  token :: string
  slots :: nat
  pc :: main_pc
  workers :: nat
  wg :: nat
  mu :: bool
  totalTCPConnections :: int64
  goroutines :: "goroutine list"
  trace :: "event list"

text \<open>
  One step of \<open>main\<close>: \<open>wg.Add(1)\<close>; the send, which blocks (\<open>None\<close>) while the
  channel is full; the \<open>go\<close> statement; the end of the loop; \<open>wg.Wait()\<close>, which blocks
  while the counter is not zero, followed by the two last lines printed.
\<close>

definition main_step :: "sched \<Rightarrow> sched option" where
  "main_step s =
     (case pc s of
        MLoop [] \<Rightarrow> Some (s\<lparr>pc := MWait\<rparr>)
      | MLoop (p # ps) \<Rightarrow> Some (s\<lparr>pc := MSend p ps, wg := Suc (wg s)\<rparr>)
      | MSend p ps \<Rightarrow>
          if workers s < slots s
          then Some (s\<lparr>pc := MGo p ps, workers := Suc (workers s)\<rparr>)
          else None
      | MGo p ps \<Rightarrow> Some (s\<lparr>pc := MLoop ps, goroutines := goroutines s @ [GStart p]\<rparr>)
      | MWait \<Rightarrow>
          if wg s = 0
          then Some (s\<lparr>pc := MDone,
                       trace := trace s @ [Print (TotalCounted (totalTCPConnections s)),
                                           Print CompletedIn]\<rparr>)
          else None
      | MDone \<Rightarrow> None
      | MPanic \<Rightarrow> None)"

definition set_goroutine :: "nat \<Rightarrow> goroutine \<Rightarrow> sched \<Rightarrow> sched" where
  "set_goroutine i g s = s\<lparr>goroutines := (goroutines s)[i := g]\<rparr>"

text \<open>
  One step of goroutine \<open>i\<close> (lines 175 to 188): the probe starts; the probe returns and
  its failure is printed or its count kept; \<open>mu.Lock()\<close>, which blocks while \<open>mu\<close> is
  held; the read and the write of \<open>totalTCPConnections += tcpCount\<close>; \<open>mu.Unlock()\<close>;
  the deferred receive from \<open>workers\<close>, which blocks on an empty channel; the deferred
  \<open>wg.Done()\<close>. Unlocking an unlocked mutex and a negative wait group counter stop the
  process.
\<close>

definition goroutine_step :: "world \<Rightarrow> nat \<Rightarrow> sched \<Rightarrow> sched option" where
  "goroutine_step w i s =
     (if length (goroutines s) \<le> i then None
      else
        (case goroutines s ! i of
           GStart p \<Rightarrow>
             Some (set_goroutine i (GProbe p)
                     (s\<lparr>trace := trace s @ count_begin p (token s)\<rparr>))
         | GProbe p \<Rightarrow>
             (case fst (count_end w p (token s)) of
                Inl err \<Rightarrow>
                  Some (set_goroutine i (GRelease p)
                          (s\<lparr>trace := trace s @ snd (count_end w p (token s))
                                                @ [Print (FailedCount p err)]\<rparr>))
              | Inr tcpCount \<Rightarrow>
                  Some (set_goroutine i (GLock p tcpCount)
                          (s\<lparr>trace := trace s @ snd (count_end w p (token s))\<rparr>)))
         | GLock p c \<Rightarrow>
             if mu s then None else Some (set_goroutine i (GLoad p c) (s\<lparr>mu := True\<rparr>))
         | GLoad p c \<Rightarrow> Some (set_goroutine i (GStore p c (totalTCPConnections s)) s)
         | GStore p c v \<Rightarrow>
             Some (set_goroutine i (GUnlock p) (s\<lparr>totalTCPConnections := v + c\<rparr>))
         | GUnlock p \<Rightarrow>
             if mu s then Some (set_goroutine i (GRelease p) (s\<lparr>mu := False\<rparr>))
             else Some (s\<lparr>pc := MPanic\<rparr>)
         | GRelease p \<Rightarrow>
             if workers s = 0 then None
             else Some (set_goroutine i (GDone p) (s\<lparr>workers := workers s - 1\<rparr>))
         | GDone p \<Rightarrow>
             if wg s = 0 then Some (s\<lparr>pc := MPanic\<rparr>)
             else Some (set_goroutine i (GExit p) (s\<lparr>wg := wg s - 1\<rparr>))
         | GExit p \<Rightarrow> None))"

text \<open>
  The program is free of data races (every shared variable is used under \<open>mu\<close>, through
  the channel or the wait group), so its runs are the interleavings of these steps. A
  schedule names who moves next; a step that is blocked, or any step after a panic, is
  \<open>None\<close>.
\<close>

datatype action = Main | Go nat

definition fire :: "world \<Rightarrow> action \<Rightarrow> sched \<Rightarrow> sched option" where
  "fire w a s =
     (if pc s = MPanic then None
      else case a of Main \<Rightarrow> main_step s | Go i \<Rightarrow> goroutine_step w i s)"

fun exec :: "world \<Rightarrow> action list \<Rightarrow> sched \<Rightarrow> sched option" where
  "exec w [] s = Some s"
| "exec w (a # as) s = (case fire w a s of None \<Rightarrow> None | Some s' \<Rightarrow> exec w as s')"

text \<open>The state at line 169 for a channel capacity, a token, the pods and the trace.\<close>

definition fan_out :: "nat \<Rightarrow> string \<Rightarrow> string list \<Rightarrow> event list \<Rightarrow> sched" where
  "fan_out c tok pods tr =
     \<lparr>token = tok, slots = c, pc = MLoop pods, workers = 0, wg = 0, mu = False,
      totalTCPConnections = 0, goroutines = [], trace = tr\<rparr>"

text \<open>The process at its start: the globals have their zero values.\<close>

definition proc0 :: proc where
  "proc0 = \<lparr>tokenCache = None, clock_reads = 0, log = []\<rparr>"

text \<open>
  Lines 147 to 168 of \<open>main\<close>: discovery, then the token. Either \<open>main\<close> returns early
  (\<open>Inl\<close>, with the process state it leaves) or the fan-out starts (\<open>Inr\<close>).
\<close>

definition main_start :: "world \<Rightarrow> proc \<Rightarrow> proc + sched" where
  "main_start w s0 =
     (let s1 = s0\<lparr>log := log s0 @ [Print Starting]\<rparr>;
          pods = fst (fst (getPods w s1));
          s2 = snd (getPods w s1)
      in case snd (fst (getPods w s1)) of
           Some err \<Rightarrow> Inl (s2\<lparr>log := log s2 @ [Print (ErrorFetchingPods err)]\<rparr>)
         | None \<Rightarrow>
             (let s3 = snd (getToken w s2)
              in case fst (getToken w s2) of
                   Inl err \<Rightarrow> Inl (s3\<lparr>log := log s3 @ [Print (ErrorFetchingToken err)]\<rparr>)
                 | Inr tok \<Rightarrow> Inr (fan_out maxConcurrentConnections tok pods (log s3))))"

subsection \<open>Quantities of a scheduler state\<close>

text \<open>The count a probe of the pod contributes: its result, or nothing when it fails.\<close>

definition probe_count :: "world \<Rightarrow> string \<Rightarrow> string \<Rightarrow> int64" where
  "probe_count w tok p = (case fst (count_end w p tok) of Inl err \<Rightarrow> 0 | Inr c \<Rightarrow> c)"

text \<open>The counts of the pods whose probe succeeds, in pod order.\<close>

definition successes :: "world \<Rightarrow> string \<Rightarrow> string list \<Rightarrow> int64 list" where
  "successes w tok pods =
     concat (map (\<lambda>p. case fst (count_end w p tok) of Inl err \<Rightarrow> [] | Inr c \<Rightarrow> [c]) pods)"

fun pod_of :: "goroutine \<Rightarrow> string" where
  "pod_of (GStart p) = p"
| "pod_of (GProbe p) = p"
| "pod_of (GLock p c) = p"
| "pod_of (GLoad p c) = p"
| "pod_of (GStore p c v) = p"
| "pod_of (GUnlock p) = p"
| "pod_of (GRelease p) = p"
| "pod_of (GDone p) = p"
| "pod_of (GExit p) = p"

text \<open>1 while the goroutine has not yet received from \<open>workers\<close>.\<close>

fun holds_slot :: "goroutine \<Rightarrow> nat" where
  "holds_slot (GDone p) = 0"
| "holds_slot (GExit p) = 0"
| "holds_slot g = 1"

text \<open>1 while the goroutine is between \<open>mu.Lock()\<close> and \<open>mu.Unlock()\<close>.\<close>

fun holds_mu :: "goroutine \<Rightarrow> nat" where
  "holds_mu (GLoad p c) = 1"
| "holds_mu (GStore p c v) = 1"
| "holds_mu (GUnlock p) = 1"
| "holds_mu g = 0"

text \<open>1 while the goroutine has not yet called \<open>wg.Done()\<close>.\<close>

fun live :: "goroutine \<Rightarrow> nat" where
  "live (GExit p) = 0"
| "live g = 1"

text \<open>What the goroutine is still to add to the total.\<close>

fun owed :: "world \<Rightarrow> string \<Rightarrow> goroutine \<Rightarrow> int64" where
  "owed w tok (GStart p) = probe_count w tok p"
| "owed w tok (GProbe p) = probe_count w tok p"
| "owed w tok (GLock p c) = c"
| "owed w tok (GLoad p c) = c"
| "owed w tok (GStore p c v) = c"
| "owed w tok g = 0"

text \<open>The value a goroutine read from the total and has not yet written back.\<close>

fun read_ok :: "int64 \<Rightarrow> goroutine \<Rightarrow> bool" where
  "read_ok t (GStore p c v) = (v = t)"
| "read_ok t g = True"

text \<open>The pods \<open>main\<close> has not yet started a goroutine for.\<close>

fun pending :: "main_pc \<Rightarrow> string list" where
  "pending (MLoop ps) = ps"
| "pending (MSend p ps) = p # ps"
| "pending (MGo p ps) = p # ps"
| "pending m = []"

text \<open>1 when \<open>main\<close> has sent to \<open>workers\<close> for a goroutine it has not yet started.\<close>

fun sent :: "main_pc \<Rightarrow> nat" where
  "sent (MGo p ps) = 1"
| "sent m = 0"

text \<open>1 when \<open>main\<close> has called \<open>wg.Add(1)\<close> for a goroutine it has not yet started.\<close>

fun added :: "main_pc \<Rightarrow> nat" where
  "added (MSend p ps) = 1"
| "added (MGo p ps) = 1"
| "added m = 0"

text \<open>The number of probe invocations in flight: the goroutines that hold a slot.\<close>

definition in_flight :: "sched \<Rightarrow> nat" where
  "in_flight s = sum_list (map holds_slot (goroutines s))"

text \<open>All pods of the run, started or not, in order.\<close>

definition targets :: "sched \<Rightarrow> string list" where
  "targets s = map pod_of (goroutines s) @ pending (pc s)"

text \<open>The total so far, with what the goroutines and the pending pods are still to add.\<close>

definition total_due :: "world \<Rightarrow> sched \<Rightarrow> int64" where
  "total_due w s =
     totalTCPConnections s
     + sum_list (map (owed w (token s)) (goroutines s))
     + sum_list (map (probe_count w (token s)) (pending (pc s)))"

text \<open>
  What holds of every state the fan-out reaches: no panic; the channel holds one element
  per goroutine in flight (and one for a goroutine about to start) and never more than
  its capacity; the wait group counts the goroutines not yet done; \<open>mu\<close> is locked
  exactly while one goroutine is inside the critical section, and a value read there is
  the current total; once \<open>main\<close> is past \<open>wg.Wait()\<close> the counter is zero.
\<close>

definition sched_inv :: "sched \<Rightarrow> bool" where
  "sched_inv s =
     (pc s \<noteq> MPanic
      \<and> workers s = in_flight s + sent (pc s)
      \<and> workers s \<le> slots s
      \<and> wg s = sum_list (map live (goroutines s)) + added (pc s)
      \<and> sum_list (map holds_mu (goroutines s)) = (if mu s then 1 else 0)
      \<and> list_all (read_ok (totalTCPConnections s)) (goroutines s)
      \<and> (pc s = MDone \<longrightarrow> wg s = 0))"

text \<open>
  How many times the goroutine has started the command \<open>c\<close>: once, after its first
  step, if \<open>c\<close> is the probe of its pod.
\<close>

fun probe_runs :: "string \<Rightarrow> command \<Rightarrow> goroutine \<Rightarrow> int" where
  "probe_runs tok c (GStart p) = 0"
| "probe_runs tok c g = (if probe_cmd (pod_of g) tok = c then 1 else 0)"

text \<open>How many times the trace runs \<open>c\<close> other than as a probe of a started goroutine.\<close>

definition other_runs :: "command \<Rightarrow> sched \<Rightarrow> int" where
  "other_runs c s =
     int (count_list (execs (trace s)) c)
     - sum_list (map (probe_runs (token s) c) (goroutines s))"

text \<open>What discovery returns; it does not depend on the process state.\<close>

definition discovered :: "world \<Rightarrow> string list \<times> error option" where
  "discovered w = fst (getPods w proc0)"

text \<open>The trace of \<open>main\<close> up to the token fetch, for the pods discovery printed.\<close>

definition prologue :: "string list \<Rightarrow> event list" where
  "prologue pods =
     [Print Starting, Print FetchingRunningPods, Exec get_pods_cmd,
      Print (RunningPodsFound pods), Print FetchingNewToken, Exec get_token_cmd]"

text \<open>The number of steps a goroutine, and \<open>main\<close>, can still take at most.\<close>

fun goroutine_rank :: "goroutine \<Rightarrow> nat" where
  "goroutine_rank (GStart p) = 8"
| "goroutine_rank (GProbe p) = 7"
| "goroutine_rank (GLock p c) = 6"
| "goroutine_rank (GLoad p c) = 5"
| "goroutine_rank (GStore p c v) = 4"
| "goroutine_rank (GUnlock p) = 3"
| "goroutine_rank (GRelease p) = 2"
| "goroutine_rank (GDone p) = 1"
| "goroutine_rank (GExit p) = 0"

fun main_rank :: "main_pc \<Rightarrow> nat" where
  "main_rank (MLoop ps) = 11 * length ps + 3"
| "main_rank (MSend p ps) = 11 * length ps + 13"
| "main_rank (MGo p ps) = 11 * length ps + 12"
| "main_rank MWait = 2"
| "main_rank MDone = 1"
| "main_rank MPanic = 0"

definition steps_left :: "sched \<Rightarrow> nat" where
  "steps_left s = main_rank (pc s) + sum_list (map goroutine_rank (goroutines s))"

section \<open>Example worlds\<close>

text \<open>Every command and request fails; the clock reads 2000.\<close>

definition world_down :: world where
  "world_down =
     \<lparr>cmd_output = (\<lambda>c. Inl (ExecError ''exit status 1'')),
      json_unmarshal = (\<lambda>t. Inl (UnmarshalError ''unexpected end of JSON input'')),
      time_now_unix = (\<lambda>k. 2000),
      http_post = (\<lambda>u c b. Inl (PostError ''connection refused''))\<rparr>"

text \<open>
  Discovery lists a header, three client pods and one other pod; the issuer answers with
  token \<open>abc\<close>; the probes of the first and the third pod print 5 and 7, every other
  command fails; the clock reads 2000; the push gateway answers 200.
\<close>

definition pods_table :: string where
  "pods_table =
     ''NAME READY'' @ [CHR 0x0A]
     @ ''client-a 1/1'' @ [CHR 0x0A]
     @ ''server-x 1/1'' @ [CHR 0x0A]
     @ ''client-b 1/1'' @ [CHR 0x0A]
     @ ''client-c 1/1'' @ [CHR 0x0A]"

definition world_up :: world where
  "world_up =
     \<lparr>cmd_output = (\<lambda>c.
        if c = get_pods_cmd then Inr pods_table
        else if c = get_token_cmd then Inr ''{}''
        else if c = probe_cmd ''client-a'' ''abc'' then Inr (''5'' @ [CHR 0x0A])
        else if c = probe_cmd ''client-c'' ''abc'' then Inr (''7'' @ [CHR 0x0A])
        else Inl (ExecError ''exit status 1'')),
      json_unmarshal = (\<lambda>t. Inr \<lparr>Token = ''abc'', Expiry = 1\<rparr>),
      time_now_unix = (\<lambda>k. 2000),
      http_post = (\<lambda>u c b. Inr (200, []))\<rparr>"

text \<open>
  The probe of the first pod prints a negative number, that of the second pod prints no
  number; the push gateway answers 202 Accepted.
\<close>

definition world_odd :: world where
  "world_odd =
     \<lparr>cmd_output = (\<lambda>c.
        if c = get_pods_cmd then Inr pods_table
        else if c = get_token_cmd then Inr ''{}''
        else if c = probe_cmd ''client-a'' ''abc'' then Inr (''-5'' @ [CHR 0x0A])
        else if c = probe_cmd ''client-b'' ''abc'' then Inr (''n/a'' @ [CHR 0x0A])
        else Inl (ExecError ''exit status 1'')),
      json_unmarshal = (\<lambda>t. Inr \<lparr>Token = ''abc'', Expiry = 1\<rparr>),
      time_now_unix = (\<lambda>k. 2000),
      http_post = (\<lambda>u c b. Inr (202, ''accepted''))\<rparr>"

text \<open>A fan-out with one goroutine, waiting for its probe of the second pod.\<close>

definition sched_probing :: sched where
  "sched_probing =
     \<lparr>token = ''abc'', slots = 100, pc = MWait, workers = 1, wg = 1, mu = False,
      totalTCPConnections = 0, goroutines = [GProbe ''client-b''], trace = []\<rparr>"

text \<open>Discovery prints one row of 65536 bytes with no white space in it.\<close>

definition long_row :: string where
  "long_row = replicate MaxScanTokenSize (CHR ''x'')"

definition world_long :: world where
  "world_long =
     \<lparr>cmd_output = (\<lambda>c. if c = get_pods_cmd then Inr long_row
                          else Inl (ExecError ''exit status 1'')),
      json_unmarshal = (\<lambda>t. Inr \<lparr>Token = ''abc'', Expiry = 1\<rparr>),
      time_now_unix = (\<lambda>k. 2000),
      http_post = (\<lambda>u c b. Inr (200, []))\<rparr>"

text \<open>
  Discovery prints nothing: no pod is running. In the first world the issuer fails, in
  the second it answers.
\<close>

definition world_no_pods_no_token :: world where
  "world_no_pods_no_token =
     \<lparr>cmd_output = (\<lambda>c. if c = get_pods_cmd then Inr []
                          else Inl (ExecError ''exit status 255'')),
      json_unmarshal = (\<lambda>t. Inr \<lparr>Token = ''abc'', Expiry = 1\<rparr>),
      time_now_unix = (\<lambda>k. 2000),
      http_post = (\<lambda>u c b. Inr (200, []))\<rparr>"

definition world_no_pods :: world where
  "world_no_pods =
     \<lparr>cmd_output = (\<lambda>c. if c = get_pods_cmd then Inr []
                          else if c = get_token_cmd then Inr ''{}''
                          else Inl (ExecError ''exit status 1'')),
      json_unmarshal = (\<lambda>t. Inr \<lparr>Token = ''abc'', Expiry = 1\<rparr>),
      time_now_unix = (\<lambda>k. 2000),
      http_post = (\<lambda>u c b. Inr (200, []))\<rparr>"

text \<open>
  Two schedules for three pods when the probe of the second pod fails. In the first all
  goroutines are started before any runs, and the third adds its count before the first.
  In the second each goroutine runs to its end before the next is started.
\<close>

definition three_pods :: "string list" where
  "three_pods = [''client-a'', ''client-b'', ''client-c'']"

definition schedule_interleaved :: "action list" where
  "schedule_interleaved =
     [Main, Main, Main, Main, Main, Main, Main, Main, Main, Main,
      Go 2, Go 0, Go 1, Go 1, Go 2, Go 0,
      Go 2, Go 2, Go 2, Go 2, Go 0, Go 0, Go 0, Go 0,
      Go 1, Go 1, Go 0, Go 2, Go 2, Go 0, Main]"

definition schedule_sequential :: "action list" where
  "schedule_sequential =
     [Main, Main, Main, Go 0, Go 0, Go 0, Go 0, Go 0, Go 0, Go 0, Go 0,
      Main, Main, Main, Go 1, Go 1, Go 1, Go 1,
      Main, Main, Main, Go 2, Go 2, Go 2, Go 2, Go 2, Go 2, Go 2, Go 2,
      Main, Main]"

text \<open>
  The start of the first schedule: all three goroutines are started and have begun
  their probe.
\<close>

definition schedule_probing :: "action list" where
  "schedule_probing = take 13 schedule_interleaved"

text \<open>
  The probe of the first pod prints the largest 64-bit \<open>int\<close>, that of the second
  pod prints 1; with the schedule that runs the two goroutines one after the other.
\<close>

definition world_big :: world where
  "world_big =
     \<lparr>cmd_output = (\<lambda>c.
        if c = probe_cmd ''client-a'' ''abc'' then Inr (''9223372036854775807'' @ [CHR 0x0A])
        else if c = probe_cmd ''client-b'' ''abc'' then Inr (''1'' @ [CHR 0x0A])
        else Inl (ExecError ''exit status 1'')),
      json_unmarshal = (\<lambda>t. Inr \<lparr>Token = ''abc'', Expiry = 1\<rparr>),
      time_now_unix = (\<lambda>k. 2000),
      http_post = (\<lambda>u c b. Inr (200, []))\<rparr>"

definition two_pods :: "string list" where
  "two_pods = [''client-a'', ''client-b'']"

definition schedule_two :: "action list" where
  "schedule_two =
     [Main, Main, Main, Go 0, Go 0, Go 0, Go 0, Go 0, Go 0, Go 0, Go 0,
      Main, Main, Main, Go 1, Go 1, Go 1, Go 1, Go 1, Go 1, Go 1, Go 1,
      Main, Main]"

text \<open>A schedule for one pod whose probe fails.\<close>

definition schedule_failing :: "action list" where
  "schedule_failing = [Main, Main, Main, Main, Go 0, Go 0, Go 0, Go 0, Main]"

text \<open>
  With one slot and two pods: main starts the first goroutine and arrives at the send for
  the second; then the first goroutine runs up to and including its release.
\<close>

definition schedule_to_full :: "action list" where
  "schedule_to_full = [Main, Main, Main, Main]"

definition schedule_to_release :: "action list" where
  "schedule_to_release = [Main, Main, Main, Main, Go 0, Go 0, Go 0, Go 0, Go 0, Go 0, Go 0]"

text \<open>A process whose cached token expired at 1000, and one whose token lasts to 3000.\<close>

definition stale_proc :: proc where
  "stale_proc =
     \<lparr>tokenCache = Some \<lparr>Token = ''old'', Expiry = 1000\<rparr>, clock_reads = 0, log = []\<rparr>"

definition fresh_proc :: proc where
  "fresh_proc =
     \<lparr>tokenCache = Some \<lparr>Token = ''cached'', Expiry = 3000\<rparr>, clock_reads = 0, log = []\<rparr>"

section \<open>Properties of the credential cache\<close>

lemma Seconds_cacheTTL: "Seconds cacheTTL = 300"
  by (simp add: Seconds_def cacheTTL_def)

lemma execs_append: "execs (xs @ ys) = execs xs @ execs ys"
  by (induction xs rule: execs.induct) simp_all

text \<open>
  C7. When the external credential fetch or the parsing of its response fails, getToken
  returns that error and the cache entry is the one it found: absent if it was absent,
  the same token and expiry otherwise.
\<close>

theorem getToken_failure_keeps_cache:
  assumes "\<not> cache_valid w s" and "fetch_fails w err"
  shows "fst (getToken w s) = Inl err
       \<and> tokenCache (snd (getToken w s)) = tokenCache s"
  using assms
  by (auto simp: getToken_def fetch_token_def fetch_fails_def cache_valid_def Let_def
           split: sum.splits option.splits)

theorem getToken_failure_keeps_cache_witness:
  "\<not> cache_valid world_down stale_proc
   \<and> fetch_fails world_down (ExecError ''exit status 1'')
   \<and> fst (getToken world_down stale_proc) = Inl (ExecError ''exit status 1'')
   \<and> tokenCache (snd (getToken world_down stale_proc))
       = Some \<lparr>Token = ''old'', Expiry = 1000\<rparr>"
proof -
  have a: "\<not> cache_valid world_down stale_proc"
    by (simp add: cache_valid_def world_down_def stale_proc_def word_sless_alt)
  have b: "fetch_fails world_down (ExecError ''exit status 1'')"
    by (simp add: fetch_fails_def world_down_def)
  show ?thesis
    using a b getToken_failure_keeps_cache [OF a b] by (simp add: stale_proc_def)
qed

lemma sint_plus_300:
  fixes x :: int64
  assumes "sint x + 300 < 2 ^ 63"
  shows "sint (x + 300) = sint x + 300"
proof -
  have lo: "- (2 ^ 63) \<le> sint x"
    using sint_ge [of x] by simp
  have "sint (x + 300) = signed_take_bit 63 (sint x + sint (300 :: int64))"
    by (simp add: sint_word_ariths)
  also have "sint (300 :: int64) = 300"
    by simp
  also have "signed_take_bit 63 (sint x + 300) = sint x + 300"
    using lo assms by (intro signed_take_bit_int_eq_self) simp_all
  finally show ?thesis .
qed

lemma not_expired_after_store:
  fixes x :: int64
  assumes "sint x + 300 < 2 ^ 63"
  shows "x <s x + Seconds cacheTTL"
  using sint_plus_300 [OF assms] by (simp add: Seconds_cacheTTL word_sless_alt)

text \<open>
  C3. getToken never returns an expired credential. If a cached credential exists and
  the clock reads less than its expiry, the cached token is returned, the cache is
  unchanged and no external command runs. Otherwise exactly one external fetch runs and,
  when it succeeds, the cache becomes the fetched token with expiry the clock reading at
  the store plus the fixed 300 seconds, whatever expiry the issuer reported, and that
  token is returned. Whenever a token is returned it is the cached one and the last
  clock reading is below its expiry (the reading being far enough from the end of the
  64-bit range for the sum not to wrap).
\<close>

theorem getToken_never_expired:
  "(\<forall>tc. tokenCache s = Some tc \<and> time_now_unix w (clock_reads s) <s Expiry tc \<longrightarrow>
       fst (getToken w s) = Inr (Token tc)
     \<and> tokenCache (snd (getToken w s)) = Some tc
     \<and> execs (log (snd (getToken w s))) = execs (log s))
 \<and> (\<not> cache_valid w s \<longrightarrow>
       execs (log (snd (getToken w s))) = execs (log s) @ [get_token_cmd])
 \<and> (\<forall>response. \<not> cache_valid w s \<and> fetch_gives w response \<longrightarrow>
       fst (getToken w s) = Inr (Token response)
     \<and> tokenCache (snd (getToken w s))
         = Some \<lparr>Token = Token response,
                  Expiry = last_reading w (snd (getToken w s)) + 300\<rparr>)
 \<and> (\<forall>tok. fst (getToken w s) = Inr tok
            \<and> sint (last_reading w (snd (getToken w s))) + 300 < 2 ^ 63 \<longrightarrow>
       (\<exists>tc. tokenCache (snd (getToken w s)) = Some tc \<and> Token tc = tok
            \<and> last_reading w (snd (getToken w s)) <s Expiry tc))"
proof (intro conjI allI impI)
  fix tc
  assume h: "tokenCache s = Some tc \<and> time_now_unix w (clock_reads s) <s Expiry tc"
  then have v: "cache_valid w s"
    by (simp add: cache_valid_def)
  show "fst (getToken w s) = Inr (Token tc)"
    using h v by (simp add: getToken_def fetch_token_def Let_def)
  show "tokenCache (snd (getToken w s)) = Some tc"
    using h v by (simp add: getToken_def fetch_token_def Let_def)
  show "execs (log (snd (getToken w s))) = execs (log s)"
    using h v by (simp add: getToken_def fetch_token_def Let_def execs_append)
next
  assume "\<not> cache_valid w s"
  then show "execs (log (snd (getToken w s))) = execs (log s) @ [get_token_cmd]"
    by (auto simp: getToken_def fetch_token_def cache_valid_def Let_def execs_append
             split: sum.splits option.splits)
next
  fix response
  assume h: "\<not> cache_valid w s \<and> fetch_gives w response"
  show "fst (getToken w s) = Inr (Token response)"
    using h by (auto simp: getToken_def fetch_token_def cache_valid_def Let_def fetch_gives_def
                         split: sum.splits option.splits)
  show "tokenCache (snd (getToken w s))
         = Some \<lparr>Token = Token response,
                  Expiry = last_reading w (snd (getToken w s)) + 300\<rparr>"
    using h
    by (auto simp: getToken_def fetch_token_def cache_valid_def Let_def fetch_gives_def
                   last_reading_def Seconds_cacheTTL
             split: sum.splits option.splits)
next
  fix tok
  assume h: "fst (getToken w s) = Inr tok
            \<and> sint (last_reading w (snd (getToken w s))) + 300 < 2 ^ 63"
  show "\<exists>tc. tokenCache (snd (getToken w s)) = Some tc \<and> Token tc = tok
            \<and> last_reading w (snd (getToken w s)) <s Expiry tc"
  proof (cases "cache_valid w s")
    case True
    then obtain tc where tc: "tokenCache s = Some tc"
      and lt: "time_now_unix w (clock_reads s) <s Expiry tc"
      by (auto simp: cache_valid_def split: option.splits)
    with True h show ?thesis
      by (simp add: getToken_def fetch_token_def Let_def last_reading_def)
  next
    case False
    with h show ?thesis
      by (auto simp: getToken_def fetch_token_def cache_valid_def Let_def last_reading_def
               split: sum.splits option.splits intro!: not_expired_after_store)
  qed
qed

theorem getToken_never_expired_witness:
  "fst (getToken world_down fresh_proc) = Inr ''cached''
   \<and> execs (log (snd (getToken world_down fresh_proc))) = []
   \<and> execs (log (snd (getToken world_up stale_proc))) = [get_token_cmd]
   \<and> fst (getToken world_up stale_proc) = Inr ''abc''
   \<and> tokenCache (snd (getToken world_up stale_proc)) = Some \<lparr>Token = ''abc'', Expiry = 2300\<rparr>
   \<and> (2000 :: int64) <s 2300"
proof -
  let ?fresh = "\<lparr>Token = ''cached'', Expiry = 3000 :: int64\<rparr>"
  let ?resp = "\<lparr>Token = ''abc'', Expiry = 1 :: int64\<rparr>"
  have fast: "tokenCache fresh_proc = Some ?fresh
      \<and> time_now_unix world_down (clock_reads fresh_proc) <s Expiry ?fresh"
    by (simp add: fresh_proc_def world_down_def word_sless_alt)
  have slow: "\<not> cache_valid world_up stale_proc"
    by (simp add: cache_valid_def stale_proc_def world_up_def word_sless_alt)
  have gives: "fetch_gives world_up ?resp"
    by (simp add: fetch_gives_def world_up_def)
  have reading: "last_reading world_up (snd (getToken world_up stale_proc)) = 2000"
    by (simp add: last_reading_def world_up_def)
  have a: "fst (getToken world_down fresh_proc) = Inr ''cached''
      \<and> execs (log (snd (getToken world_down fresh_proc))) = []"
    using getToken_never_expired [of fresh_proc world_down] fast
    by (simp add: fresh_proc_def)
  have b: "execs (log (snd (getToken world_up stale_proc))) = [get_token_cmd]"
    using getToken_never_expired [of stale_proc world_up] slow
    by (simp add: stale_proc_def)
  have c: "fst (getToken world_up stale_proc) = Inr ''abc''
      \<and> tokenCache (snd (getToken world_up stale_proc)) = Some \<lparr>Token = ''abc'', Expiry = 2300\<rparr>"
    using getToken_never_expired [of stale_proc world_up] slow gives reading
    by simp
  have d: "(2000 :: int64) <s 2300"
    using getToken_never_expired [of stale_proc world_up] c reading
    by simp
  show ?thesis
    using a b c d by simp
qed

section \<open>Properties of the probe executor\<close>

lemma foldl_dec_mono: "n \<le> foldl (\<lambda>n c. n * 10 + digit_val c) n ds"
proof (induction ds arbitrary: n)
  case Nil
  show ?case by simp
next
  case (Cons d ds)
  have "n \<le> n * 10 + digit_val d" by simp
  also have "\<dots> \<le> foldl (\<lambda>n c. n * 10 + digit_val c) (n * 10 + digit_val d) ds"
    by (rule Cons.IH)
  finally show ?case by simp
qed

lemma parse_digits_Inr:
  "n < 2 ^ 64 \<Longrightarrow>
   parse_digits n ds = Inr m \<longleftrightarrow>
     list_all is_digit ds \<and> foldl (\<lambda>n c. n * 10 + digit_val c) n ds < 2 ^ 64
     \<and> m = foldl (\<lambda>n c. n * 10 + digit_val c) n ds"
proof (induction ds arbitrary: n)
  case Nil
  then show ?case by auto
next
  case (Cons d ds)
  show ?case
  proof (cases "is_digit d \<and> n * 10 + digit_val d < 2 ^ 64")
    case True
    then have "n < (2 ^ 64 - 1) div 10 + 1" by simp
    with True show ?thesis
      using Cons.IH [of "n * 10 + digit_val d"] by (simp add: not_le)
  next
    case False
    have "foldl (\<lambda>n c. n * 10 + digit_val c) (n * 10 + digit_val d) ds \<ge> n * 10 + digit_val d"
      by (rule foldl_dec_mono)
    with False show ?thesis
      by (auto simp: not_less)
  qed
qed

lemma parse_digits_dec_value:
  "parse_digits 0 ds = Inr m \<longleftrightarrow> list_all is_digit ds \<and> dec_value ds < 2 ^ 64 \<and> m = dec_value ds"
  using parse_digits_Inr [of 0 ds m] by (simp add: dec_value_def)

lemma sint_word_of_int_64:
  fixes i :: int
  assumes "- (2 ^ 63) \<le> i" and "i < 2 ^ 63"
  shows "sint (word_of_int i :: int64) = i"
  using assms by (simp add: sint_sbintrunc' signed_take_bit_int_eq_self)

lemma word_of_int_inj_64:
  fixes c :: int64
  assumes "sint c = i"
  shows "word_of_int i = c"
  using assms by auto

text \<open>\<open>Atoi\<close> succeeds exactly on the signed decimal texts of the 64-bit integers.\<close>

lemma Atoi_iff_denotes: "Atoi s = Inr c \<longleftrightarrow> denotes s (sint c)"
proof
  assume a: "Atoi s = Inr c"
  let ?ds = "unsigned_part s"
  from a have ne: "?ds \<noteq> []"
    by (auto simp: Atoi_def Let_def split: if_splits)
  from a ne obtain un where un: "parse_digits 0 ?ds = Inr un"
    by (auto simp: Atoi_def Let_def split: sum.splits)
  then have digs: "list_all is_digit ?ds" and val: "un = dec_value ?ds"
    by (simp_all add: parse_digits_dec_value)
  show "denotes s (sint c)"
  proof (cases "take 1 s = ''-''")
    case True
    with a ne un have le: "un \<le> 2 ^ 63" and c: "c = - word_of_nat un"
      by (auto simp: Atoi_def Let_def split: if_splits)
    have s1: "sint (word_of_int (- int un) :: int64) = - int un"
      using le by (intro sint_word_of_int_64) simp_all
    have s2: "(word_of_int (- int un) :: int64) = c"
      by (simp add: c)
    have "sint c = - int un"
      using s1 unfolding s2 .
    with True ne digs val show ?thesis
      by (simp add: denotes_def)
  next
    case False
    with a ne un have lt: "un < 2 ^ 63" and c: "c = word_of_nat un"
      by (auto simp: Atoi_def Let_def not_le split: if_splits)
    have s1: "sint (word_of_int (int un) :: int64) = int un"
      using lt by (intro sint_word_of_int_64) simp_all
    have s2: "(word_of_int (int un) :: int64) = c"
      by (simp add: c)
    have "sint c = int un"
      using s1 unfolding s2 .
    with False ne digs val show ?thesis
      by (simp add: denotes_def)
  qed
next
  assume d: "denotes s (sint c)"
  let ?ds = "unsigned_part s"
  from d have ne: "?ds \<noteq> []" and digs: "list_all is_digit ?ds"
    by (simp_all add: denotes_def)
  have lo: "- (2 ^ 63) \<le> sint c" and hi: "sint c < 2 ^ 63"
    using sint_ge [of c] sint_lt [of c] by simp_all
  show "Atoi s = Inr c"
  proof (cases "take 1 s = ''-''")
    case True
    with d have v: "sint c = - int (dec_value ?ds)"
      by (simp add: denotes_def)
    with lo have le: "dec_value ?ds \<le> 2 ^ 63"
      by simp
    then have "dec_value ?ds < 2 ^ 64"
      by simp
    with digs have p: "parse_digits 0 ?ds = Inr (dec_value ?ds)"
      by (simp add: parse_digits_dec_value)
    have "word_of_int (- int (dec_value ?ds)) = c"
      using v by (intro word_of_int_inj_64) simp
    then have "- word_of_nat (dec_value ?ds) = c"
      by simp
    with True ne p le show ?thesis
      by (simp add: Atoi_def Let_def)
  next
    case False
    with d have v: "sint c = int (dec_value ?ds)"
      by (simp add: denotes_def)
    with hi have lt: "dec_value ?ds < 2 ^ 63"
      by simp
    then have "dec_value ?ds < 2 ^ 64"
      by simp
    with digs have p: "parse_digits 0 ?ds = Inr (dec_value ?ds)"
      by (simp add: parse_digits_dec_value)
    have "word_of_int (int (dec_value ?ds)) = c"
      using v by (intro word_of_int_inj_64) simp
    then have "word_of_nat (dec_value ?ds) = c"
      by simp
    with False ne p lt show ?thesis
      by (simp add: Atoi_def Let_def)
  qed
qed

lemma Atoi_Inl: "Atoi s = Inl e \<Longrightarrow> \<exists>cause. e = NumError s cause"
  by (auto simp: Atoi_def Let_def split: if_splits sum.splits)


text \<open>
  C5, as the code has it. When the probe command succeeds, countTCPConnections returns
  the count \<open>c\<close> exactly when its output, with the white space at both ends removed, is
  a decimal integer with an optional \<open>+\<close> or \<open>-\<close> sign that denotes \<open>c\<close> within the
  64-bit range of \<open>int\<close>: negative counts are accepted. Any other output is returned as
  an error that carries the pod and the cause. The goroutine that receives an error
  prints it and goes on to release its slot; nothing else in the state changes.
\<close>

theorem countTCPConnections_signed_decimal:
  assumes "cmd_output w (probe_cmd pod tok) = Inr out"
  shows "(fst (countTCPConnections w pod tok) = Inr c \<longleftrightarrow> denotes (TrimSpace out) (sint c))
       \<and> ((\<nexists>n. denotes (TrimSpace out) (sint (n :: int64))) \<longrightarrow>
            (\<exists>cause. fst (countTCPConnections w pod tok)
                      = Inl (ParseCountError pod (NumError (TrimSpace out) cause))))
       \<and> (\<forall>s i err. i < length (goroutines s) \<and> goroutines s ! i = GProbe pod
              \<and> token s = tok \<and> fst (countTCPConnections w pod tok) = Inl err \<longrightarrow>
            goroutine_step w i s
              = Some (s\<lparr>goroutines := (goroutines s)[i := GRelease pod],
                        trace := trace s @ [Print (FailedCount pod err)]\<rparr>))"
proof (intro conjI allI impI)
  show "fst (countTCPConnections w pod tok) = Inr c \<longleftrightarrow> denotes (TrimSpace out) (sint c)"
    using assms Atoi_iff_denotes [of "TrimSpace out" c]
    by (auto simp: countTCPConnections_def count_end_def split: sum.splits)
next
  assume none: "\<nexists>n :: int64. denotes (TrimSpace out) (sint n)"
  then have "\<nexists>n. Atoi (TrimSpace out) = Inr n"
    by (simp add: Atoi_iff_denotes)
  then obtain e where e: "Atoi (TrimSpace out) = Inl e"
    by (cases "Atoi (TrimSpace out)") auto
  then obtain cause where "e = NumError (TrimSpace out) cause"
    using Atoi_Inl by blast
  with e assms show "\<exists>cause. fst (countTCPConnections w pod tok)
                      = Inl (ParseCountError pod (NumError (TrimSpace out) cause))"
    by (simp add: countTCPConnections_def count_end_def)
next
  fix s :: sched and i err
  assume h: "i < length (goroutines s) \<and> goroutines s ! i = GProbe pod
              \<and> token s = tok \<and> fst (countTCPConnections w pod tok) = Inl err"
  then have "fst (count_end w pod tok) = Inl err"
    by (simp add: countTCPConnections_def)
  moreover from this have "snd (count_end w pod tok) = []"
    by (auto simp: count_end_def split: sum.splits)
  ultimately show "goroutine_step w i s
              = Some (s\<lparr>goroutines := (goroutines s)[i := GRelease pod],
                        trace := trace s @ [Print (FailedCount pod err)]\<rparr>)"
    using h by (simp add: goroutine_step_def set_goroutine_def)
qed

lemma trim_a: "TrimSpace ''-5\<newline>'' = ''-5''"
  by code_simp

lemma trim_b: "TrimSpace ''n/a\<newline>'' = ''n/a''"
  by code_simp

lemma world_odd_a:
  "cmd_output world_odd (probe_cmd ''client-a'' ''abc'') = Inr (''-5'' @ [CHR 0x0A])"
  by (simp add: world_odd_def probe_cmd_def get_pods_cmd_def get_token_cmd_def)

lemma world_odd_b:
  "cmd_output world_odd (probe_cmd ''client-b'' ''abc'') = Inr (''n/a'' @ [CHR 0x0A])"
  by (simp add: world_odd_def probe_cmd_def get_pods_cmd_def get_token_cmd_def)

text \<open>
  C5 as stated fails: the output \<open>-5\<close> is no non-negative integer, yet it is no format
  error; the probe returns the count \<open>-5\<close>.
\<close>

theorem countTCPConnections_negative_counterexample:
  "cmd_output world_odd (probe_cmd ''client-a'' ''abc'') = Inr (''-5'' @ [CHR 0x0A])
   \<and> fst (countTCPConnections world_odd ''client-a'' ''abc'') = Inr (- 5)
   \<and> sint (- 5 :: int64) < 0"
  by (simp add: world_odd_a countTCPConnections_def count_end_def trim_a Atoi_def
                Let_def is_digit_def digit_val_def)

theorem countTCPConnections_signed_decimal_witness:
  "cmd_output world_odd (probe_cmd ''client-a'' ''abc'') = Inr (''-5'' @ [CHR 0x0A])
   \<and> denotes ''-5'' (sint (- 5 :: int64))
   \<and> fst (countTCPConnections world_odd ''client-a'' ''abc'') = Inr (- 5)
   \<and> cmd_output world_odd (probe_cmd ''client-b'' ''abc'') = Inr (''n/a'' @ [CHR 0x0A])
   \<and> (\<nexists>n. denotes ''n/a'' (sint (n :: int64)))
   \<and> (\<exists>cause. fst (countTCPConnections world_odd ''client-b'' ''abc'')
                 = Inl (ParseCountError ''client-b'' (NumError ''n/a'' cause)))
   \<and> goroutine_step world_odd 0 sched_probing
       = Some (sched_probing
                 \<lparr>goroutines := [GRelease ''client-b''],
                  trace := [Print (FailedCount ''client-b''
                                    (ParseCountError ''client-b'' (NumError ''n/a'' ErrSyntax)))]\<rparr>)"
proof -
  have a: "cmd_output world_odd (probe_cmd ''client-a'' ''abc'') = Inr (''-5'' @ [CHR 0x0A])"
    by (rule world_odd_a)
  have b: "cmd_output world_odd (probe_cmd ''client-b'' ''abc'') = Inr (''n/a'' @ [CHR 0x0A])"
    by (rule world_odd_b)
  have d: "denotes ''-5'' (sint (- 5 :: int64))"
    by (simp add: denotes_def is_digit_def dec_value_def digit_val_def)
  have n: "\<nexists>n. denotes ''n/a'' (sint (n :: int64))"
    by (simp add: denotes_def is_digit_def)
  have ra: "fst (countTCPConnections world_odd ''client-a'' ''abc'') = Inr (- 5)"
    using countTCPConnections_signed_decimal [OF a, of "- 5"] d by (simp add: trim_a)
  have rb: "\<exists>cause. fst (countTCPConnections world_odd ''client-b'' ''abc'')
                 = Inl (ParseCountError ''client-b'' (NumError ''n/a'' cause))"
    using countTCPConnections_signed_decimal [OF b, of 0] n by (simp add: trim_b)
  have e: "fst (countTCPConnections world_odd ''client-b'' ''abc'')
             = Inl (ParseCountError ''client-b'' (NumError ''n/a'' ErrSyntax))"
    using b by (simp add: countTCPConnections_def count_end_def trim_b Atoi_def Let_def is_digit_def)
  have g: "goroutine_step world_odd 0 sched_probing
       = Some (sched_probing
                 \<lparr>goroutines := [GRelease ''client-b''],
                  trace := [Print (FailedCount ''client-b''
                                    (ParseCountError ''client-b'' (NumError ''n/a'' ErrSyntax)))]\<rparr>)"
    using countTCPConnections_signed_decimal [OF b, of 0] e
    by (simp add: sched_probing_def)
  show ?thesis
    using a b d n ra rb g by simp
qed

section \<open>Properties of the publisher\<close>

lemma digit_char:
  assumes "k < 10"
  shows "is_digit (char_of (48 + k))" and "digit_val (char_of (48 + k)) = k"
  using assms by (simp_all add: is_digit_def digit_val_def)

lemma nat_digits_digits: "nat_digits m \<noteq> [] \<and> list_all is_digit (nat_digits m)"
proof (induction m rule: nat_digits.induct)
  case (1 n)
  show ?case
  proof (cases "n < 10")
    case True
    then show ?thesis
      by (subst (1 2) nat_digits.simps) (simp add: digit_char)
  next
    case False
    have "m mod 10 < 10" for m :: nat
      by simp
    with False 1 show ?thesis
      by (subst (1 2) nat_digits.simps) (simp add: digit_char)
  qed
qed

lemma dec_value_snoc: "dec_value (ds @ [d]) = dec_value ds * 10 + digit_val d"
  by (simp add: dec_value_def)

lemma dec_value_nat_digits: "dec_value (nat_digits m) = m"
proof (induction m rule: nat_digits.induct)
  case (1 n)
  show ?case
  proof (cases "n < 10")
    case True
    then show ?thesis
      by (subst nat_digits.simps) (simp add: dec_value_def digit_char)
  next
    case False
    have "n mod 10 < 10"
      by simp
    then have "digit_val (char_of (48 + n mod 10)) = n mod 10"
      by (rule digit_char)
    with False 1 show ?thesis
      by (subst nat_digits.simps) (simp add: dec_value_snoc)
  qed
qed

lemma unsigned_part_digits:
  assumes "ds \<noteq> []" and "list_all is_digit ds"
  shows "unsigned_part ds = ds" and "take 1 ds \<noteq> ''-''"
  using assms by (cases ds; auto simp: is_digit_def)+

lemma format_int_denotes: "denotes (format_int n) (sint n)"
proof (cases "sint n < 0")
  case True
  then show ?thesis
    using nat_digits_digits [of "nat (- sint n)"]
    by (simp add: format_int_def denotes_def dec_value_nat_digits)
next
  case False
  then show ?thesis
    using nat_digits_digits [of "nat (sint n)"]
          unsigned_part_digits [of "nat_digits (nat (sint n))"]
    by (simp add: format_int_def denotes_def dec_value_nat_digits)
qed

text \<open>
  C9, as the code has it. sendToPushGateway sends one HTTP POST to the fixed URL with
  content type text/plain and the body \<open>client_tcp_new\<close>, a space, the aggregate in
  decimal text and a newline. It returns success exactly when the response status is
  200; for every other status it returns an error whose diagnostic is the response body.
\<close>

theorem sendToPushGateway_ok_iff_200:
  assumes "http_post w pushGateway ''text/plain''
             (''client_tcp_new '' @ format_int n @ [CHR 0x0A]) = Inr (status, body)"
  shows "(fst (sendToPushGateway w n s) = None \<longleftrightarrow> status = 200)
       \<and> (status \<noteq> 200 \<longrightarrow> fst (sendToPushGateway w n s) = Some (PushGatewayError body))
       \<and> log (snd (sendToPushGateway w n s))
           = log s @ [Print (SendingTotal n),
                      HttpPost pushGateway ''text/plain''
                        (''client_tcp_new '' @ format_int n @ [CHR 0x0A])]
                   @ (if status = 200 then [Print SentToPushGateway] else [])
       \<and> Atoi (format_int n) = Inr n"
  using assms
  by (simp add: sendToPushGateway_def Let_def Atoi_iff_denotes format_int_denotes)

lemma format_12: "format_int 12 = ''12''"
  by code_simp

lemma world_odd_post:
  "http_post world_odd pushGateway ''text/plain'' (''client_tcp_new '' @ format_int 12 @ [CHR 0x0A])
     = Inr (202, ''accepted'')"
  by (simp add: world_odd_def)

lemma world_up_post:
  "http_post world_up pushGateway ''text/plain'' (''client_tcp_new '' @ format_int 12 @ [CHR 0x0A])
     = Inr (200, [])"
  by (simp add: world_up_def)

text \<open>C9 as stated fails: the status 202 is a 2xx status, and the result is an error.\<close>

theorem sendToPushGateway_202_counterexample:
  "http_post world_odd pushGateway ''text/plain'' ''client_tcp_new 12\<newline>'' = Inr (202, ''accepted'')
   \<and> (200 :: int) \<le> 202 \<and> (202 :: int) < 300
   \<and> fst (sendToPushGateway world_odd 12 proc0) = Some (PushGatewayError ''accepted'')"
  by (simp add: sendToPushGateway_def Let_def world_odd_def)

theorem sendToPushGateway_ok_iff_200_witness:
  "fst (sendToPushGateway world_odd 12 proc0) = Some (PushGatewayError ''accepted'')
   \<and> log (snd (sendToPushGateway world_odd 12 proc0))
       = [Print (SendingTotal 12),
          HttpPost pushGateway ''text/plain'' ''client_tcp_new 12\<newline>'']
   \<and> Atoi ''12'' = Inr 12
   \<and> fst (sendToPushGateway world_up 12 proc0) = None"
  using sendToPushGateway_ok_iff_200 [OF world_odd_post, of proc0]
        sendToPushGateway_ok_iff_200 [OF world_up_post, of proc0]
  by (simp add: format_12 proc0_def)

section \<open>Properties of target discovery\<close>

lemma scan_pods_eq:
  "scan_pods acc ls =
     (acc @ eligible_names (map dropCR (scanned ls)),
      if list_all (\<lambda>l. length l < MaxScanTokenSize) ls then None else Some ErrTooLong)"
proof (induction ls arbitrary: acc)
  case Nil
  show ?case
    by (simp add: eligible_names_def scanned_def)
next
  case (Cons l ls)
  show ?case
  proof (cases "length l < MaxScanTokenSize")
    case False
    then show ?thesis
      by (simp add: eligible_names_def scanned_def)
  next
    case True
    then show ?thesis
      using Cons.IH
      by (cases "Fields (dropCR l)") (simp_all add: eligible_names_def scanned_def)
  qed
qed

lemma scanned_all:
  "list_all (\<lambda>l. length l < MaxScanTokenSize) ls \<Longrightarrow> scanned ls = ls"
  by (simp add: scanned_def list_all_iff)

text \<open>
  C8, as the code has it. getPods asks the collaborator for the pods of the namespace
  restricted to phase Running. When the command succeeds and every line of its output is
  shorter than 65536 bytes, getPods returns, in row order, exactly the first
  white-space-delimited field of each row whose first field matches the pattern, and no
  error, also when there is none. When a line is longer, it returns what it found before
  that line together with the scanner's error.
\<close>

theorem getPods_eligible_names:
  assumes "cmd_output w get_pods_cmd = Inr out"
  shows "(list_all (\<lambda>l. length l < MaxScanTokenSize) (split_lines out) \<longrightarrow>
            fst (getPods w s) = (eligible_names (rows out), None))
       \<and> (\<not> list_all (\<lambda>l. length l < MaxScanTokenSize) (split_lines out) \<longrightarrow>
            fst (getPods w s)
              = (eligible_names (map dropCR (scanned (split_lines out))), Some ErrTooLong))
       \<and> execs (log (snd (getPods w s))) = execs (log s) @ [get_pods_cmd]
       \<and> ''--field-selector=status.phase=Running'' \<in> set (argv get_pods_cmd)"
  using assms
  by (simp add: getPods_def Let_def scan_pods_eq scanned_all rows_def execs_append
                get_pods_cmd_def)

lemma no_space_x: "leading_space (CHR ''x'' # cs) = 0"
  by (simp add: leading_space_def space_runes_def)

lemma MaxScanTokenSize_pos: "0 < MaxScanTokenSize"
  by (simp add: MaxScanTokenSize_def)

lemma split_long_row: "split_lines long_row = [long_row]"
proof -
  have ne: "long_row \<noteq> []"
    using MaxScanTokenSize_pos by (simp add: long_row_def)
  have tw: "takeWhile (\<lambda>c. c \<noteq> CHR 0x0A) long_row = long_row"
    by (simp add: long_row_def takeWhile_eq_all_conv)
  have dw: "dropWhile (\<lambda>c. c \<noteq> CHR 0x0A) long_row = []"
    by (simp add: long_row_def dropWhile_eq_Nil_conv)
  show ?thesis
    using ne by (subst split_lines.simps) (simp add: tw dw split_lines.simps)
qed

lemma length_long_row: "length long_row = 65536"
proof -
  have "length long_row = MaxScanTokenSize"
    by (simp add: long_row_def)
  then show ?thesis
    by (simp add: MaxScanTokenSize_def)
qed

lemma field_len_x: "field_len (replicate n (CHR ''x'')) = n"
  by (induction n) (simp_all add: no_space_x)

lemma Fields_x:
  assumes "0 < n"
  shows "Fields (replicate n (CHR ''x'')) = [replicate n (CHR ''x'')]"
proof -
  obtain m where n: "n = Suc m"
    using assms by (cases n) auto
  have "leading_space (replicate n (CHR ''x'')) = 0"
    by (simp add: n no_space_x)
  then show ?thesis
    using assms
    by (subst Fields.simps) (simp add: field_len_x Fields.simps [of "[]"])
qed

lemma no_match_x: "\<not> match_from b (replicate n (CHR ''x''))"
  by (induction n arbitrary: b) simp_all

lemma dropCR_x: "dropCR (replicate n (CHR ''x'')) = replicate n (CHR ''x'')"
  by (cases n) (simp_all add: dropCR_def)

lemma long_row_no_names: "eligible_names (rows long_row) = []"
  using MaxScanTokenSize_pos
  by (simp add: rows_def split_long_row eligible_names_def)
     (simp add: long_row_def dropCR_x Fields_x podRegex_MatchString_def no_match_x)

lemma world_long_pods: "cmd_output world_long get_pods_cmd = Inr long_row"
  by (simp add: world_long_def)

text \<open>
  C8 as stated fails: on an output of one row of 65536 bytes, in which no candidate
  qualifies, getPods returns an error.
\<close>

theorem getPods_long_row_counterexample:
  "cmd_output world_long get_pods_cmd = Inr long_row
   \<and> length long_row = 65536
   \<and> eligible_names (rows long_row) = []
   \<and> fst (getPods world_long proc0) = ([], Some ErrTooLong)"
  by (simp add: world_long_pods length_long_row long_row_no_names getPods_def Let_def
                split_long_row MaxScanTokenSize_def)

lemma world_up_pods: "cmd_output world_up get_pods_cmd = Inr pods_table"
  by (simp add: world_up_def)

lemma split_lines_length:
  "l \<in> set (split_lines s) \<Longrightarrow> length l \<le> length s"
proof (induction s rule: split_lines.induct)
  case (1 s)
  show ?case
  proof (cases "s = []")
    case True
    with "1.prems" show ?thesis
      by (simp add: split_lines.simps)
  next
    case False
    let ?rest = "drop 1 (dropWhile (\<lambda>c. c \<noteq> CHR 0x0A) s)"
    from False "1.prems"
    have "l = takeWhile (\<lambda>c. c \<noteq> CHR 0x0A) s \<or> l \<in> set (split_lines ?rest)"
      by (subst (asm) split_lines.simps) simp
    then show ?thesis
    proof
      assume "l = takeWhile (\<lambda>c. c \<noteq> CHR 0x0A) s"
      then show ?thesis
        by (simp add: length_takeWhile_le)
    next
      assume "l \<in> set (split_lines ?rest)"
      then have "length l \<le> length ?rest"
        using False by (rule "1.IH" [rotated])
      also have "\<dots> \<le> length (dropWhile (\<lambda>c. c \<noteq> CHR 0x0A) s)"
        by simp
      also have "\<dots> \<le> length s"
        by (rule length_dropWhile_le)
      finally show ?thesis .
    qed
  qed
qed

lemma short_output:
  assumes "length out < MaxScanTokenSize"
  shows "list_all (\<lambda>l. length l < MaxScanTokenSize) (split_lines out)"
  unfolding list_all_iff
proof
  fix l
  assume "l \<in> set (split_lines out)"
  then have "length l \<le> length out"
    by (rule split_lines_length)
  with assms show "length l < MaxScanTokenSize"
    by simp
qed

lemma pods_table_short:
  "list_all (\<lambda>l. length l < MaxScanTokenSize) (split_lines pods_table)"
  by (rule short_output) (simp add: pods_table_def MaxScanTokenSize_def)

lemma pods_table_names:
  "eligible_names (rows pods_table) = [''client-a'', ''client-b'', ''client-c'']"
  by code_simp

theorem getPods_eligible_names_witness:
  "fst (getPods world_up proc0) = ([''client-a'', ''client-b'', ''client-c''], None)
   \<and> execs (log (snd (getPods world_up proc0))) = [get_pods_cmd]
   \<and> \<not> list_all (\<lambda>l. length l < MaxScanTokenSize) (split_lines long_row)
   \<and> fst (getPods world_long proc0) = ([], Some ErrTooLong)"
proof -
  have long: "\<not> list_all (\<lambda>l. length l < MaxScanTokenSize) (split_lines long_row)"
    by (simp add: split_long_row length_long_row MaxScanTokenSize_def)
  have "scanned (split_lines long_row) = []"
    by (simp add: scanned_def split_long_row length_long_row MaxScanTokenSize_def)
  then have none: "eligible_names (map dropCR (scanned (split_lines long_row))) = []"
    by (simp add: eligible_names_def)
  show ?thesis
    using getPods_eligible_names [OF world_up_pods, of proc0]
          getPods_eligible_names [OF world_long_pods, of proc0]
          pods_table_short pods_table_names long none
    by (simp add: proc0_def)
qed

section \<open>Properties of the fan-out\<close>

subsection \<open>Sums over the goroutines\<close>

lemma sum_list_map_update:
  fixes f :: "'a \<Rightarrow> 'b::comm_monoid_add"
  assumes "i < length xs"
  shows "sum_list (map f (xs[i := y])) + f (xs ! i) = sum_list (map f xs) + f y"
  using assms
proof (induction xs arbitrary: i)
  case Nil
  then show ?case by simp
next
  case (Cons x xs)
  show ?case
  proof (cases i)
    case 0
    then show ?thesis by (simp add: ac_simps)
  next
    case (Suc j)
    with Cons.prems have "j < length xs" by simp
    from Cons.IH [OF this] Suc show ?thesis
      by (simp add: ac_simps)
  qed
qed

lemma nat_sum_update:
  fixes f :: "'a \<Rightarrow> nat"
  assumes "i < length xs"
  shows "sum_list (map f (xs[i := y])) = sum_list (map f xs) + f y - f (xs ! i)"
  using sum_list_map_update [OF assms, of f y] by simp

lemma nat_sum_elem:
  fixes f :: "'a \<Rightarrow> nat"
  assumes "i < length xs"
  shows "f (xs ! i) \<le> sum_list (map f xs)"
  using assms elem_le_sum_list [of i "map f xs"] by simp

lemma word_sum_update:
  fixes f :: "'a \<Rightarrow> int64"
  assumes "i < length xs"
  shows "sum_list (map f (xs[i := y])) = sum_list (map f xs) + f y - f (xs ! i)"
  using sum_list_map_update [OF assms, of f y] by (simp add: algebra_simps)

lemma nat_sum_pos:
  fixes f :: "'a \<Rightarrow> nat"
  assumes "0 < sum_list (map f xs)"
  shows "\<exists>i < length xs. 0 < f (xs ! i)"
proof -
  from assms obtain x where "x \<in> set xs" and "0 < f x"
    by (induction xs) (auto split: if_splits)
  then show ?thesis
    by (auto simp: in_set_conv_nth)
qed

lemma nat_sum_zero:
  fixes f :: "'a \<Rightarrow> nat"
  shows "sum_list (map f xs) = 0 \<longleftrightarrow> (\<forall>x \<in> set xs. f x = 0)"
  by (induction xs) auto

lemma nat_sum_two_elems:
  fixes f :: "'a \<Rightarrow> nat"
  assumes "i < length xs" and "j < length xs" and "i \<noteq> j"
  shows "f (xs ! i) + f (xs ! j) \<le> sum_list (map f xs)"
  using assms
proof (induction xs arbitrary: i j)
  case Nil
  then show ?case by simp
next
  case (Cons x xs)
  show ?case
  proof (cases i)
    case 0
    with Cons.prems obtain j' where "j = Suc j'" and "j' < length xs"
      by (cases j) auto
    with 0 show ?thesis
      using nat_sum_elem [of j' xs f] by simp
  next
    case i: (Suc i')
    show ?thesis
    proof (cases j)
      case 0
      with i Cons.prems show ?thesis
        using nat_sum_elem [of i' xs f] by simp
    next
      case (Suc j')
      with i Cons.prems have "f (xs ! i') + f (xs ! j') \<le> sum_list (map f xs)"
        by (intro Cons.IH) simp_all
      with i Suc show ?thesis by simp
    qed
  qed
qed

lemma only_holder_others:
  fixes f :: "'a \<Rightarrow> nat"
  assumes "sum_list (map f xs) = 1" and "i < length xs" and "f (xs ! i) = 1"
    and "j < length xs" and "j \<noteq> i"
  shows "f (xs ! j) = 0"
  using nat_sum_two_elems [of i xs j f] assms by simp

lemma read_ok_outside: "holds_mu g = 0 \<Longrightarrow> read_ok t g"
  by (cases g) simp_all

lemma list_all_update:
  assumes "list_all P xs" and "P y"
  shows "list_all P (xs[i := y])"
  using assms set_update_subset_insert [of xs i y] by (auto simp: list_all_iff)

subsection \<open>The invariant\<close>

lemma fan_out_inv: "sched_inv (fan_out c tok pods tr)"
  by (simp add: sched_inv_def fan_out_def in_flight_def)

lemma main_step_inv:
  assumes "sched_inv s" and "main_step s = Some s'"
  shows "sched_inv s'"
  using assms
  by (auto simp: main_step_def sched_inv_def in_flight_def
           simp del: sum_list_eq_0_iff split: main_pc.splits list.splits if_splits)

lemma goroutine_step_inv:
  assumes inv: "sched_inv s" and step: "goroutine_step w i s = Some s'"
  shows "sched_inv s'"
proof -
  from step have i: "i < length (goroutines s)"
    by (auto simp: goroutine_step_def split: if_splits)
  note le = nat_sum_elem [OF i, of holds_slot] nat_sum_elem [OF i, of live]
            nat_sum_elem [OF i, of holds_mu]
  show ?thesis
  proof (cases "goroutines s ! i")
    case (GStart p)
    with inv step i le show ?thesis
      by (auto simp: goroutine_step_def set_goroutine_def sched_inv_def in_flight_def
                     nat_sum_update list_all_update simp del: sum_list_eq_0_iff)
  next
    case (GProbe p)
    with inv step i le show ?thesis
      by (auto simp: goroutine_step_def set_goroutine_def sched_inv_def in_flight_def
                     nat_sum_update list_all_update simp del: sum_list_eq_0_iff split: sum.splits)
  next
    case (GLock p c)
    with inv step i le show ?thesis
      by (auto simp: goroutine_step_def set_goroutine_def sched_inv_def in_flight_def
                     nat_sum_update list_all_update simp del: sum_list_eq_0_iff split: if_splits)
  next
    case (GLoad p c)
    with inv step i le show ?thesis
      by (auto simp: goroutine_step_def set_goroutine_def sched_inv_def in_flight_def
                     nat_sum_update list_all_update simp del: sum_list_eq_0_iff)
  next
    case (GStore p c v)
    from inv i GStore have one: "sum_list (map holds_mu (goroutines s)) = 1"
      using le by (auto simp: sched_inv_def split: if_splits)
    have "read_ok t (((goroutines s)[i := GUnlock p]) ! j)"
      if "j < length (goroutines s)" for j t
    proof (cases "j = i")
      case True
      with i show ?thesis by simp
    next
      case False
      with one i that GStore have "holds_mu (goroutines s ! j) = 0"
        by (intro only_holder_others [of holds_mu "goroutines s" i j]) simp_all
      with False show ?thesis
        by (simp add: read_ok_outside)
    qed
    then have ok: "list_all (read_ok t) ((goroutines s)[i := GUnlock p])" for t
      by (simp add: list_all_length)
    from inv step i le GStore show ?thesis
      by (auto simp: goroutine_step_def set_goroutine_def sched_inv_def in_flight_def
                     nat_sum_update ok simp del: sum_list_eq_0_iff)
  next
    case (GUnlock p)
    with inv step i le show ?thesis
      by (auto simp: goroutine_step_def set_goroutine_def sched_inv_def in_flight_def
                     nat_sum_update list_all_update simp del: sum_list_eq_0_iff split: if_splits)
  next
    case (GRelease p)
    with inv step i le show ?thesis
      by (auto simp: goroutine_step_def set_goroutine_def sched_inv_def in_flight_def
                     nat_sum_update list_all_update simp del: sum_list_eq_0_iff split: if_splits)
  next
    case (GDone p)
    with inv step i le show ?thesis
      by (auto simp: goroutine_step_def set_goroutine_def sched_inv_def in_flight_def
                     nat_sum_update list_all_update simp del: sum_list_eq_0_iff split: if_splits)
  next
    case (GExit p)
    with step i show ?thesis
      by (simp add: goroutine_step_def)
  qed
qed

lemma inv_mu_held:
  assumes "sched_inv s" and "i < length (goroutines s)"
    and "holds_mu (goroutines s ! i) = 1"
  shows "mu s"
  using assms nat_sum_elem [of i "goroutines s" holds_mu]
  by (auto simp: sched_inv_def simp del: sum_list_eq_0_iff split: if_splits)

lemma inv_wg_pos:
  assumes "sched_inv s" and "i < length (goroutines s)"
    and "live (goroutines s ! i) = 1"
  shows "0 < wg s"
  using assms nat_sum_elem [of i "goroutines s" live]
  by (auto simp: sched_inv_def simp del: sum_list_eq_0_iff)

lemma inv_read:
  assumes "sched_inv s" and "i < length (goroutines s)"
    and "goroutines s ! i = GStore p c v"
  shows "v = totalTCPConnections s"
proof -
  from assms(1) have "list_all (read_ok (totalTCPConnections s)) (goroutines s)"
    by (simp add: sched_inv_def)
  with assms(2) have "read_ok (totalTCPConnections s) (goroutines s ! i)"
    by (simp add: list_all_length)
  with assms(3) show ?thesis
    by simp
qed

subsection \<open>What a step leaves unchanged\<close>

lemma main_step_due:
  assumes "main_step s = Some s'"
  shows "total_due w s' = total_due w s \<and> targets s' = targets s
       \<and> token s' = token s \<and> slots s' = slots s"
  using assms
  by (auto simp: main_step_def total_due_def targets_def
           split: main_pc.splits list.splits if_splits)

lemma goroutine_step_due:
  assumes inv: "sched_inv s" and step: "goroutine_step w i s = Some s'"
  shows "total_due w s' = total_due w s \<and> targets s' = targets s
       \<and> token s' = token s \<and> slots s' = slots s"
proof -
  from step have i: "i < length (goroutines s)"
    by (auto simp: goroutine_step_def split: if_splits)
  have tg: "map pod_of ((goroutines s)[i := g]) = map pod_of (goroutines s)"
    if "pod_of g = pod_of (goroutines s ! i)" for g
    using that i by (simp add: map_update list_update_same_conv)
  show ?thesis
  proof (cases "goroutines s ! i")
    case (GStart p)
    with step i show ?thesis
      by (auto simp: goroutine_step_def set_goroutine_def total_due_def targets_def
                     word_sum_update tg)
  next
    case (GProbe p)
    with step i show ?thesis
      by (auto simp: goroutine_step_def set_goroutine_def total_due_def targets_def
                     word_sum_update tg probe_count_def split: sum.splits)
  next
    case (GLock p c)
    with step i show ?thesis
      by (auto simp: goroutine_step_def set_goroutine_def total_due_def targets_def
                     word_sum_update tg split: if_splits)
  next
    case (GLoad p c)
    with step i show ?thesis
      by (auto simp: goroutine_step_def set_goroutine_def total_due_def targets_def
                     word_sum_update tg)
  next
    case (GStore p c v)
    with inv i have "v = totalTCPConnections s"
      by (intro inv_read)
    with GStore step i show ?thesis
      by (auto simp: goroutine_step_def set_goroutine_def total_due_def targets_def
                     word_sum_update tg)
  next
    case (GUnlock p)
    with inv i have "mu s"
      by (intro inv_mu_held [of s i]) simp_all
    with GUnlock step i show ?thesis
      by (auto simp: goroutine_step_def set_goroutine_def total_due_def targets_def
                     word_sum_update tg)
  next
    case (GRelease p)
    with step i show ?thesis
      by (auto simp: goroutine_step_def set_goroutine_def total_due_def targets_def
                     word_sum_update tg split: if_splits)
  next
    case (GDone p)
    with inv i have "0 < wg s"
      by (intro inv_wg_pos [of s i]) simp_all
    with GDone step i show ?thesis
      by (auto simp: goroutine_step_def set_goroutine_def total_due_def targets_def
                     word_sum_update tg)
  next
    case (GExit p)
    with step i show ?thesis
      by (simp add: goroutine_step_def)
  qed
qed

lemma fire_inv:
  assumes "sched_inv s" and "fire w a s = Some s'"
  shows "sched_inv s'"
  using assms
  by (cases a) (auto simp: fire_def split: if_splits intro: main_step_inv goroutine_step_inv)

lemma fire_due:
  assumes "sched_inv s" and "fire w a s = Some s'"
  shows "total_due w s' = total_due w s \<and> targets s' = targets s
       \<and> token s' = token s \<and> slots s' = slots s"
  using assms main_step_due [of s s' w] goroutine_step_due [of s w _ s']
  by (cases a) (auto simp: fire_def split: if_splits)

lemma exec_inv:
  assumes "sched_inv s" and "exec w acts s = Some s'"
  shows "sched_inv s' \<and> total_due w s' = total_due w s \<and> targets s' = targets s
       \<and> token s' = token s \<and> slots s' = slots s"
  using assms
proof (induction acts arbitrary: s)
  case Nil
  then show ?case by simp
next
  case (Cons a acts)
  from Cons.prems obtain s1 where a: "fire w a s = Some s1" and r: "exec w acts s1 = Some s'"
    by (auto split: option.splits)
  from Cons.prems(1) a have "sched_inv s1"
    by (rule fire_inv)
  from Cons.IH [OF this r] fire_due [OF Cons.prems(1) a] show ?case
    by simp
qed

subsection \<open>Every run is finite and never stuck before main returns\<close>

lemma main_step_decreases:
  assumes "main_step s = Some s'"
  shows "steps_left s' < steps_left s"
  using assms
  by (auto simp: main_step_def steps_left_def split: main_pc.splits list.splits if_splits)

lemma panic_decreases:
  assumes "pc s \<noteq> MPanic"
  shows "steps_left (s\<lparr>pc := MPanic\<rparr>) < steps_left s"
  using assms by (cases "pc s") (simp_all add: steps_left_def)

lemma goroutine_step_decreases:
  assumes "pc s \<noteq> MPanic" and step: "goroutine_step w i s = Some s'"
  shows "steps_left s' < steps_left s"
proof -
  from step have i: "i < length (goroutines s)"
    by (auto simp: goroutine_step_def split: if_splits)
  note le = nat_sum_elem [OF i, of goroutine_rank]
  note pd = panic_decreases [OF assms(1)]
  show ?thesis
    using step i le pd
    by (cases "goroutines s ! i")
       (auto simp: goroutine_step_def set_goroutine_def steps_left_def nat_sum_update
             split: sum.splits if_splits)
qed

lemma fire_decreases:
  assumes "fire w a s = Some s'"
  shows "steps_left s' < steps_left s"
  using assms main_step_decreases [of s s'] goroutine_step_decreases [of s w _ s']
  by (cases a) (auto simp: fire_def split: if_splits)

lemma exec_length:
  assumes "exec w acts s = Some s'"
  shows "length acts + steps_left s' \<le> steps_left s"
  using assms
proof (induction acts arbitrary: s)
  case Nil
  then show ?case by simp
next
  case (Cons a acts)
  from Cons.prems obtain s1 where a: "fire w a s = Some s1" and r: "exec w acts s1 = Some s'"
    by (auto split: option.splits)
  from Cons.IH [OF r] fire_decreases [OF a] show ?case
    by simp
qed

lemma exec_append:
  "exec w (xs @ ys) s = (case exec w xs s of None \<Rightarrow> None | Some s1 \<Rightarrow> exec w ys s1)"
  by (induction xs arbitrary: s) (auto split: option.splits)

text \<open>A goroutine that has not finished, or the holder of the mutex it waits for, can move.\<close>

lemma live_goroutine_moves:
  assumes inv: "sched_inv s" and i: "i < length (goroutines s)"
    and l: "live (goroutines s ! i) = 1"
  shows "\<exists>j s'. goroutine_step w j s = Some s'"
proof -
  have move: "\<exists>j s'. goroutine_step w j s = Some s'" if "goroutine_step w j s \<noteq> None" for j
    using that by blast
  show ?thesis
  proof (cases "goroutines s ! i")
    case (GLock p c)
    show ?thesis
    proof (cases "mu s")
      case False
      with GLock i show ?thesis
        by (intro move [of i]) (simp add: goroutine_step_def)
    next
      case True
      with inv have "0 < sum_list (map holds_mu (goroutines s))"
        by (simp add: sched_inv_def del: sum_list_eq_0_iff)
      then obtain j where j: "j < length (goroutines s)"
        and h: "0 < holds_mu (goroutines s ! j)"
        using nat_sum_pos by blast
      then show ?thesis
        using True
        by (intro move [of j]) (cases "goroutines s ! j"; simp add: goroutine_step_def)
    qed
  next
    case (GRelease p)
    with inv i have "0 < workers s"
      using nat_sum_elem [OF i, of holds_slot]
      by (auto simp: sched_inv_def in_flight_def simp del: sum_list_eq_0_iff)
    with GRelease i show ?thesis
      by (intro move [of i]) (simp add: goroutine_step_def)
  next
    case (GExit p)
    with l show ?thesis by simp
  next
    case (GProbe p)
    with i show ?thesis
      by (intro move [of i]) (simp add: goroutine_step_def split: sum.splits)
  next
    case (GStart p)
    with i show ?thesis
      by (intro move [of i]) (simp add: goroutine_step_def)
  next
    case (GLoad p c)
    with i show ?thesis
      by (intro move [of i]) (simp add: goroutine_step_def)
  next
    case (GStore p c v)
    with i show ?thesis
      by (intro move [of i]) (simp add: goroutine_step_def)
  next
    case (GUnlock p)
    with i show ?thesis
      by (intro move [of i]) (simp add: goroutine_step_def)
  next
    case (GDone p)
    with i show ?thesis
      by (intro move [of i]) (simp add: goroutine_step_def)
  qed
qed

lemma holds_slot_live: "0 < holds_slot g \<Longrightarrow> live g = 1"
  by (cases g) simp_all

lemma live_pos: "0 < live g \<Longrightarrow> live g = 1"
  by (cases g) simp_all

lemma progress:
  assumes inv: "sched_inv s" and c: "1 \<le> slots s" and nd: "pc s \<noteq> MDone"
  shows "\<exists>a s'. fire w a s = Some s'"
proof -
  from inv have np: "pc s \<noteq> MPanic"
    by (simp add: sched_inv_def)
  have go: "\<exists>a s'. fire w a s = Some s'" if "\<exists>j s'. goroutine_step w j s = Some s'"
  proof -
    from that obtain j s' where "goroutine_step w j s = Some s'"
      by blast
    with np have "fire w (Go j) s = Some s'"
      by (simp add: fire_def)
    then show ?thesis
      by blast
  qed
  have mn: "\<exists>a s'. fire w a s = Some s'" if "main_step s = Some s'" for s'
  proof -
    from that np have "fire w Main s = Some s'"
      by (simp add: fire_def)
    then show ?thesis
      by blast
  qed
  show ?thesis
  proof (cases "pc s")
    case (MLoop ps)
    then show ?thesis
      by (cases ps) (auto intro!: mn simp: main_step_def)
  next
    case (MSend p ps)
    show ?thesis
    proof (cases "workers s < slots s")
      case True
      with MSend show ?thesis
        by (auto intro!: mn simp: main_step_def)
    next
      case False
      with c inv MSend have "0 < sum_list (map holds_slot (goroutines s))"
        by (simp add: sched_inv_def in_flight_def del: sum_list_eq_0_iff)
      then obtain i where "i < length (goroutines s)" and "0 < holds_slot (goroutines s ! i)"
        using nat_sum_pos by blast
      then show ?thesis
        using inv by (intro go live_goroutine_moves [of s i]) (simp_all add: holds_slot_live)
    qed
  next
    case (MGo p ps)
    then show ?thesis
      by (auto intro!: mn simp: main_step_def)
  next
    case MWait
    show ?thesis
    proof (cases "wg s = 0")
      case True
      with MWait show ?thesis
        by (auto intro!: mn simp: main_step_def)
    next
      case False
      with inv MWait have "0 < sum_list (map live (goroutines s))"
        by (simp add: sched_inv_def del: sum_list_eq_0_iff)
      then obtain i where "i < length (goroutines s)" and "0 < live (goroutines s ! i)"
        using nat_sum_pos by blast
      then show ?thesis
        using inv by (intro go live_goroutine_moves [of s i]) (simp_all add: live_pos)
    qed
  next
    case MDone
    with nd show ?thesis by simp
  next
    case MPanic
    with np show ?thesis by simp
  qed
qed

text \<open>From every state the fan-out reaches, some schedule leads to the return of main.\<close>

lemma can_finish:
  assumes "sched_inv s" and "1 \<le> slots s"
  shows "\<exists>acts s'. exec w acts s = Some s' \<and> pc s' = MDone"
  using assms
proof (induction "steps_left s" arbitrary: s rule: less_induct)
  case less
  show ?case
  proof (cases "pc s = MDone")
    case True
    then have "exec w [] s = Some s \<and> pc s = MDone"
      by simp
    then show ?thesis
      by blast
  next
    case False
    with less.prems obtain a s1 where a: "fire w a s = Some s1"
      using progress by blast
    then have "steps_left s1 < steps_left s"
      by (rule fire_decreases)
    moreover from less.prems(1) a have "sched_inv s1"
      by (rule fire_inv)
    moreover from less.prems a have "1 \<le> slots s1"
      using fire_due [of s w a s1] by simp
    ultimately obtain acts s' where "exec w acts s1 = Some s'" and "pc s' = MDone"
      using less.hyps by blast
    with a have "exec w (a # acts) s = Some s' \<and> pc s' = MDone"
      by simp
    then show ?thesis
      by blast
  qed
qed

subsection \<open>When main returns\<close>

lemma sum_list_all_zero:
  fixes f :: "'a \<Rightarrow> 'b::monoid_add"
  assumes "\<forall>x \<in> set xs. f x = 0"
  shows "sum_list (map f xs) = 0"
  using assms by (induction xs) simp_all

lemma all_exited:
  assumes "sched_inv s" and "pc s = MDone"
  shows "\<forall>g \<in> set (goroutines s). \<exists>p. g = GExit p"
proof
  fix g
  assume g: "g \<in> set (goroutines s)"
  from assms have "sum_list (map live (goroutines s)) = 0"
    by (simp add: sched_inv_def del: sum_list_eq_0_iff)
  with g have "live g = 0"
    by (simp add: nat_sum_zero)
  then show "\<exists>p. g = GExit p"
    by (cases g) simp_all
qed

lemma done_total:
  assumes "sched_inv s" and "pc s = MDone"
  shows "total_due w s = totalTCPConnections s" and "workers s = 0" and "in_flight s = 0"
proof -
  from all_exited [OF assms] have ex: "\<forall>g \<in> set (goroutines s). \<exists>p. g = GExit p" .
  then have "\<forall>g \<in> set (goroutines s). owed w (token s) g = 0"
    by auto
  then have "sum_list (map (owed w (token s)) (goroutines s)) = 0"
    by (rule sum_list_all_zero)
  with assms show "total_due w s = totalTCPConnections s"
    by (simp add: total_due_def)
  from ex have "\<forall>g \<in> set (goroutines s). holds_slot g = 0"
    by auto
  then show "in_flight s = 0"
    by (simp add: in_flight_def nat_sum_zero)
  with assms show "workers s = 0"
    by (simp add: sched_inv_def)
qed

lemma probe_counts_successes:
  "sum_list (map (probe_count w tok) pods) = sum_list (successes w tok pods)"
  by (induction pods) (auto simp: probe_count_def successes_def split: sum.splits)

lemma fan_out_due:
  "total_due w (fan_out c tok pods tr) = sum_list (successes w tok pods)"
  by (simp add: total_due_def fan_out_def probe_counts_successes)

subsection \<open>The trace\<close>

lemma int_sum_update:
  fixes f :: "'a \<Rightarrow> int"
  assumes "i < length xs"
  shows "sum_list (map f (xs[i := y])) = sum_list (map f xs) + f y - f (xs ! i)"
  using sum_list_map_update [OF assms, of f y] by simp

lemma count_list_append: "count_list (xs @ ys) c = count_list xs c + count_list ys c"
  by (induction xs) simp_all

lemma main_step_runs:
  assumes "main_step s = Some s'"
  shows "other_runs c s' = other_runs c s \<and> (\<exists>evs. trace s' = trace s @ evs)"
  using assms
  by (auto simp: main_step_def other_runs_def execs_append
           split: main_pc.splits list.splits if_splits)

lemma goroutine_step_runs:
  assumes inv: "sched_inv s" and step: "goroutine_step w i s = Some s'"
  shows "other_runs c s' = other_runs c s \<and> (\<exists>evs. trace s' = trace s @ evs)"
proof -
  from step have i: "i < length (goroutines s)"
    by (auto simp: goroutine_step_def split: if_splits)
  have ce: "execs (snd (count_end w p tok)) = []" for p tok
    by (auto simp: count_end_def split: sum.splits)
  show ?thesis
  proof (cases "goroutines s ! i")
    case (GUnlock p)
    with inv i have "mu s"
      by (intro inv_mu_held [of s i]) simp_all
    with GUnlock step i show ?thesis
      by (auto simp: goroutine_step_def set_goroutine_def other_runs_def int_sum_update)
  next
    case (GDone p)
    with inv i have "0 < wg s"
      by (intro inv_wg_pos [of s i]) simp_all
    with GDone step i show ?thesis
      by (auto simp: goroutine_step_def set_goroutine_def other_runs_def int_sum_update)
  next
    case (GProbe p)
    with step i show ?thesis
      by (auto simp: goroutine_step_def set_goroutine_def other_runs_def int_sum_update
                     execs_append ce split: sum.splits)
  next
    case (GStart p)
    with step i show ?thesis
      by (auto simp: goroutine_step_def set_goroutine_def other_runs_def int_sum_update
                     execs_append count_begin_def count_list_append)
  qed (use step i in \<open>auto simp: goroutine_step_def set_goroutine_def other_runs_def
                               int_sum_update split: if_splits\<close>)
qed

lemma fire_runs:
  assumes "sched_inv s" and "fire w a s = Some s'"
  shows "other_runs c s' = other_runs c s \<and> (\<exists>evs. trace s' = trace s @ evs)"
  using assms main_step_runs [of s s' c] goroutine_step_runs [of s w _ s' c]
  by (cases a) (auto simp: fire_def split: if_splits)

lemma exec_runs:
  assumes "sched_inv s" and "exec w acts s = Some s'"
  shows "other_runs c s' = other_runs c s \<and> (\<exists>evs. trace s' = trace s @ evs)"
  using assms
proof (induction acts arbitrary: s)
  case Nil
  then show ?case by simp
next
  case (Cons a acts)
  from Cons.prems obtain s1 where a: "fire w a s = Some s1" and r: "exec w acts s1 = Some s'"
    by (auto split: option.splits)
  from Cons.prems(1) a have "sched_inv s1"
    by (rule fire_inv)
  from Cons.IH [OF this r] fire_runs [OF Cons.prems(1) a, of c] show ?case
    by auto
qed

text \<open>Once every goroutine has run to its end, each has run the probe of its pod once.\<close>

lemma probe_runs_exited:
  assumes "\<forall>g \<in> set gs. \<exists>p. g = GExit p"
  shows "sum_list (map (probe_runs tok c) gs)
           = int (count_list (map (\<lambda>p. probe_cmd p tok) (map pod_of gs)) c)"
  using assms by (induction gs) auto

subsection \<open>The aggregate\<close>

lemma word_of_int_sum_sint:
  "(word_of_int (sum_list (map sint xs)) :: int64) = sum_list xs"
  by (induction xs) simp_all

lemma sint_sum_list:
  fixes xs :: "int64 list"
  assumes "- (2 ^ 63) \<le> sum_list (map sint xs)" and "sum_list (map sint xs) < 2 ^ 63"
  shows "sint (sum_list xs) = sum_list (map sint xs)"
proof -
  have "sint (word_of_int (sum_list (map sint xs)) :: int64) = sum_list (map sint xs)"
    using assms by (rule sint_word_of_int_64)
  then show ?thesis
    by (simp only: word_of_int_sum_sint)
qed

lemma successes_all_fail:
  assumes "\<forall>p \<in> set pods. \<exists>e. fst (count_end w p tok) = Inl e"
  shows "successes w tok pods = []"
  using assms by (induction pods) (auto simp: successes_def)

lemma steps_left_fan_out: "steps_left (fan_out c tok pods tr) = 11 * length pods + 3"
  by (simp add: steps_left_def fan_out_def)

lemma exec_done_total:
  assumes "exec w acts (fan_out c tok pods tr) = Some s" and "pc s = MDone"
  shows "totalTCPConnections s = sum_list (successes w tok pods)"
proof -
  from exec_inv [OF fan_out_inv assms(1)]
  have inv: "sched_inv s" and due: "total_due w s = total_due w (fan_out c tok pods tr)"
    by simp_all
  from done_total(1) [OF inv assms(2)] due show ?thesis
    by (simp add: fan_out_due)
qed

lemma exec_can_finish:
  assumes "1 \<le> c" and "exec w acts (fan_out c tok pods tr) = Some s"
  shows "\<exists>acts' s'. exec w (acts @ acts') (fan_out c tok pods tr) = Some s' \<and> pc s' = MDone"
proof -
  from exec_inv [OF fan_out_inv assms(2)]
  have inv: "sched_inv s" and sl: "slots s = slots (fan_out c tok pods tr)"
    by simp_all
  from sl assms(1) have "1 \<le> slots s"
    by (simp add: fan_out_def)
  with inv obtain acts' s' where "exec w acts' s = Some s'" and "pc s' = MDone"
    using can_finish by blast
  with assms(2) have "exec w (acts @ acts') (fan_out c tok pods tr) = Some s' \<and> pc s' = MDone"
    by (simp add: exec_append)
  then show ?thesis
    by blast
qed

lemma exec_not_stuck:
  assumes "1 \<le> c" and "exec w acts (fan_out c tok pods tr) = Some s" and "pc s \<noteq> MDone"
  shows "\<exists>a s'. fire w a s = Some s'"
proof -
  from exec_inv [OF fan_out_inv assms(2)]
  have inv: "sched_inv s" and sl: "slots s = slots (fan_out c tok pods tr)"
    by simp_all
  from sl assms(1) have "1 \<le> slots s"
    by (simp add: fan_out_def)
  with inv assms(3) show ?thesis
    by (intro progress)
qed

lemma done_is_final:
  assumes "sched_inv s" and "pc s = MDone"
  shows "fire w a s = None"
proof (cases a)
  case Main
  with assms show ?thesis
    by (simp add: fire_def main_step_def)
next
  case (Go i)
  show ?thesis
  proof (cases "i < length (goroutines s)")
    case True
    with all_exited [OF assms] obtain p where "goroutines s ! i = GExit p"
      by (metis nth_mem)
    with Go True show ?thesis
      by (simp add: fire_def goroutine_step_def)
  next
    case False
    with Go show ?thesis
      by (simp add: fire_def goroutine_step_def)
  qed
qed

lemma goroutine_step_pc:
  assumes "goroutine_step w i s = Some s'"
  shows "pc s' = pc s \<or> pc s' = MPanic"
  using assms
  by (cases "goroutines s ! i")
     (auto simp: goroutine_step_def set_goroutine_def split: if_splits sum.splits)

lemma fire_to_done:
  assumes "fire w a s = Some s'" and "pc s' = MDone" and "pc s \<noteq> MDone"
  shows "trace s' = trace s @ [Print (TotalCounted (totalTCPConnections s')), Print CompletedIn]"
proof (cases a)
  case Main
  with assms show ?thesis
    by (auto simp: fire_def main_step_def split: main_pc.splits list.splits if_splits)
next
  case (Go i)
  with assms goroutine_step_pc [of w i s s'] show ?thesis
    by (auto simp: fire_def split: if_splits)
qed

lemma exec_done_trace:
  assumes inv: "sched_inv s0" and nd: "pc s0 \<noteq> MDone"
    and ex: "exec w acts s0 = Some s" and d: "pc s = MDone"
  shows "\<exists>evs. trace s = trace s0 @ evs @ [Print (TotalCounted (totalTCPConnections s)),
                                            Print CompletedIn]"
proof (cases acts rule: rev_cases)
  case Nil
  with ex nd d show ?thesis
    by simp
next
  case (snoc acts' a)
  with ex obtain s1 where s1: "exec w acts' s0 = Some s1" and a: "fire w a s1 = Some s"
    by (auto simp: exec_append split: option.splits)
  from exec_inv [OF inv s1] have inv1: "sched_inv s1"
    by simp
  have "pc s1 \<noteq> MDone"
    using done_is_final [OF inv1, of w a] a by auto
  with a d have "trace s = trace s1 @ [Print (TotalCounted (totalTCPConnections s)),
                                       Print CompletedIn]"
    by (intro fire_to_done)
  moreover from exec_runs [OF inv s1] obtain evs where "trace s1 = trace s0 @ evs"
    by blast
  ultimately show ?thesis
    by simp
qed

text \<open>
  C1, as the code has it. In every run of the fan-out over the discovered pods, whatever
  the order in which main and the goroutines take their steps, the total that main
  prints when it returns is the sum of the counts of the pods whose probe succeeds, taken
  in Go's 64-bit \<open>int\<close>, which wraps around: it is the sum of the integers whenever
  that sum fits 64 bits. When every probe fails it is 0. The run does not abort: it takes at most 11 steps per pod and 3
  more, it is never stuck before main returns, and it can always be continued until main
  returns.
\<close>

theorem aggregate_is_sum_of_successes:
  assumes "1 \<le> c" and "exec w acts (fan_out c tok pods tr) = Some s"
  shows "(pc s = MDone \<longrightarrow>
            totalTCPConnections s = sum_list (successes w tok pods)
          \<and> (- (2 ^ 63) \<le> sum_list (map sint (successes w tok pods))
               \<and> sum_list (map sint (successes w tok pods)) < 2 ^ 63 \<longrightarrow>
             sint (totalTCPConnections s) = sum_list (map sint (successes w tok pods)))
          \<and> ((\<forall>p \<in> set pods. \<exists>e. fst (count_end w p tok) = Inl e) \<longrightarrow>
               totalTCPConnections s = 0)
          \<and> (\<exists>evs. trace s = tr @ evs @ [Print (TotalCounted (totalTCPConnections s)),
                                           Print CompletedIn]))
       \<and> (pc s \<noteq> MDone \<longrightarrow> (\<exists>a s'. fire w a s = Some s'))
       \<and> length acts \<le> 11 * length pods + 3
       \<and> (\<exists>acts' s'. exec w (acts @ acts') (fan_out c tok pods tr) = Some s' \<and> pc s' = MDone)"
proof (intro conjI impI)
  assume d: "pc s = MDone"
  show t: "totalTCPConnections s = sum_list (successes w tok pods)"
    using assms(2) d by (rule exec_done_total)
  show "sint (totalTCPConnections s) = sum_list (map sint (successes w tok pods))"
    if "- (2 ^ 63) \<le> sum_list (map sint (successes w tok pods))
        \<and> sum_list (map sint (successes w tok pods)) < 2 ^ 63"
    using that by (simp add: t sint_sum_list)
  show "totalTCPConnections s = 0"
    if "\<forall>p \<in> set pods. \<exists>e. fst (count_end w p tok) = Inl e"
    using that by (simp add: t successes_all_fail)
  show "\<exists>evs. trace s = tr @ evs @ [Print (TotalCounted (totalTCPConnections s)),
                                     Print CompletedIn]"
    using exec_done_trace [OF fan_out_inv _ assms(2) d] by (simp add: fan_out_def)
next
  assume "pc s \<noteq> MDone"
  with assms show "\<exists>a s'. fire w a s = Some s'"
    by (rule exec_not_stuck)
next
  from exec_length [OF assms(2)] show "length acts \<le> 11 * length pods + 3"
    by (simp add: steps_left_fan_out)
next
  from assms show "\<exists>acts' s'. exec w (acts @ acts') (fan_out c tok pods tr) = Some s'
      \<and> pc s' = MDone"
    by (rule exec_can_finish)
qed

lemma world_up_a: "count_end world_up ''client-a'' ''abc'' = (Inr 5, [Print (CountFor ''client-a'' 5)])"
proof -
  have "cmd_output world_up (probe_cmd ''client-a'' ''abc'') = Inr ''5\<newline>''"
    by (simp add: world_up_def probe_cmd_def get_pods_cmd_def get_token_cmd_def)
  moreover have "TrimSpace ''5\<newline>'' = ''5''"
    by code_simp
  moreover have "Atoi ''5'' = Inr 5"
    by (simp add: Atoi_def Let_def is_digit_def digit_val_def)
  ultimately show ?thesis
    by (simp add: count_end_def)
qed

lemma world_up_c: "count_end world_up ''client-c'' ''abc'' = (Inr 7, [Print (CountFor ''client-c'' 7)])"
proof -
  have "cmd_output world_up (probe_cmd ''client-c'' ''abc'') = Inr ''7\<newline>''"
    by (simp add: world_up_def probe_cmd_def get_pods_cmd_def get_token_cmd_def)
  moreover have "TrimSpace ''7\<newline>'' = ''7''"
    by code_simp
  moreover have "Atoi ''7'' = Inr 7"
    by (simp add: Atoi_def Let_def is_digit_def digit_val_def)
  ultimately show ?thesis
    by (simp add: count_end_def)
qed

lemma world_up_b: "count_end world_up ''client-b'' ''abc'' = (Inl (ExecError ''exit status 1''), [])"
  by (simp add: count_end_def world_up_def probe_cmd_def get_pods_cmd_def get_token_cmd_def)

lemmas run_defs = fire_def main_step_def goroutine_step_def set_goroutine_def fan_out_def

lemma successes_world_up: "successes world_up ''abc'' three_pods = [5, 7]"
  by (simp add: successes_def three_pods_def world_up_a world_up_b world_up_c)

theorem aggregate_is_sum_of_successes_witness:
  "map_option pc (exec world_up schedule_interleaved (fan_out 100 ''abc'' three_pods []))
     = Some MDone
   \<and> map_option totalTCPConnections
        (exec world_up schedule_interleaved (fan_out 100 ''abc'' three_pods [])) = Some 12
   \<and> map_option totalTCPConnections
        (exec world_up schedule_sequential (fan_out 100 ''abc'' three_pods [])) = Some 12
   \<and> sum_list (map sint (successes world_up ''abc'' three_pods)) = 12
   \<and> map_option totalTCPConnections
        (exec world_up schedule_failing (fan_out 100 ''abc'' [''client-b''] [])) = Some 0
   \<and> fire world_up Main (fan_out 100 ''abc'' three_pods []) \<noteq> None"
proof -
  obtain s where e: "exec world_up schedule_interleaved (fan_out 100 ''abc'' three_pods []) = Some s"
    and d: "pc s = MDone"
    by (simp add: schedule_interleaved_def three_pods_def run_defs world_up_a world_up_b
                  world_up_c)
  obtain s2 where e2: "exec world_up schedule_sequential (fan_out 100 ''abc'' three_pods []) = Some s2"
    and d2: "pc s2 = MDone"
    by (simp add: schedule_sequential_def three_pods_def run_defs world_up_a world_up_b
                  world_up_c)
  obtain s3 where e3: "exec world_up schedule_failing (fan_out 100 ''abc'' [''client-b''] []) = Some s3"
    and d3: "pc s3 = MDone"
    by (simp add: schedule_failing_def run_defs world_up_b)
  have e0: "exec world_up [] (fan_out 100 ''abc'' three_pods []) = Some (fan_out 100 ''abc'' three_pods [])"
    by simp
  have n0: "pc (fan_out 100 ''abc'' three_pods []) \<noteq> MDone"
    by (simp add: fan_out_def)
  have c: "(1 :: nat) \<le> 100"
    by simp
  have fits: "- (2 ^ 63) \<le> sum_list (map sint (successes world_up ''abc'' three_pods))
      \<and> sum_list (map sint (successes world_up ''abc'' three_pods)) < 2 ^ 63"
    by (simp add: successes_world_up)
  have fails: "\<forall>p \<in> set [''client-b'']. \<exists>e. fst (count_end world_up p ''abc'') = Inl e"
    by (simp add: world_up_b)
  have "totalTCPConnections s = 12" and "sint (totalTCPConnections s) = 12"
    using aggregate_is_sum_of_successes [OF c e] d fits by (simp_all add: successes_world_up)
  moreover have "totalTCPConnections s2 = 12"
    using aggregate_is_sum_of_successes [OF c e2] d2 by (simp add: successes_world_up)
  moreover have "totalTCPConnections s3 = 0"
    using aggregate_is_sum_of_successes [OF c e3] d3 fails by blast
  moreover have "fire world_up Main (fan_out 100 ''abc'' three_pods []) \<noteq> None"
    using aggregate_is_sum_of_successes [OF c e0] n0 by (auto simp: run_defs three_pods_def)
  ultimately show ?thesis
    using e d e2 e3 by (simp add: successes_world_up)
qed

lemma world_big_a:
  "count_end world_big ''client-a'' ''abc''
     = (Inr 9223372036854775807, [Print (CountFor ''client-a'' 9223372036854775807)])"
proof -
  have "cmd_output world_big (probe_cmd ''client-a'' ''abc'') = Inr ''9223372036854775807\<newline>''"
    by (simp add: world_big_def)
  moreover have "TrimSpace ''9223372036854775807\<newline>'' = ''9223372036854775807''"
    by code_simp
  moreover have "Atoi ''9223372036854775807'' = Inr 9223372036854775807"
    by (simp add: Atoi_def Let_def is_digit_def digit_val_def)
  ultimately show ?thesis
    by (simp add: count_end_def)
qed

lemma world_big_b:
  "count_end world_big ''client-b'' ''abc'' = (Inr 1, [Print (CountFor ''client-b'' 1)])"
proof -
  have "cmd_output world_big (probe_cmd ''client-b'' ''abc'') = Inr ''1\<newline>''"
    by (simp add: world_big_def probe_cmd_def)
  moreover have "TrimSpace ''1\<newline>'' = ''1''"
    by code_simp
  moreover have "Atoi ''1'' = Inr 1"
    by (simp add: Atoi_def Let_def is_digit_def digit_val_def)
  ultimately show ?thesis
    by (simp add: count_end_def)
qed

text \<open>
  C1 as stated fails: the probes of two pods succeed with the counts 9223372036854775807
  and 1, whose sum is 9223372036854775808, and the total when main returns is
  -9223372036854775808.
\<close>

theorem aggregate_wraps_counterexample:
  "successes world_big ''abc'' two_pods = [9223372036854775807, 1]
   \<and> sum_list (map sint (successes world_big ''abc'' two_pods)) = 9223372036854775808
   \<and> map_option (\<lambda>s. (pc s, sint (totalTCPConnections s)))
        (exec world_big schedule_two (fan_out 100 ''abc'' two_pods []))
       = Some (MDone, - 9223372036854775808)"
  by (simp add: successes_def two_pods_def schedule_two_def run_defs world_big_a world_big_b)

subsection \<open>The admission bound\<close>

text \<open>
  C2. In every state a run of the fan-out reaches with channel capacity \<open>c\<close>, at most
  \<open>c\<close> probe invocations are in flight. When main is at the send for the next pod, it
  is blocked exactly when \<open>c\<close> invocations are in flight, and the receive of a goroutine
  at its release frees one slot. Every run can be continued until main returns (for a
  capacity of at least 1), and then every goroutine, one per pod, has run to its end and
  released its slot, whether its probe succeeded or failed: the channel is empty.
\<close>

theorem at_most_c_in_flight:
  assumes "exec w acts (fan_out c tok pods tr) = Some s"
  shows "in_flight s \<le> c
       \<and> (\<forall>p ps. pc s = MSend p ps \<longrightarrow> (fire w Main s = None \<longleftrightarrow> in_flight s = c))
       \<and> (\<forall>i p. i < length (goroutines s) \<and> goroutines s ! i = GRelease p \<longrightarrow>
            (\<exists>s'. fire w (Go i) s = Some s' \<and> Suc (in_flight s') = in_flight s
                  \<and> Suc (workers s') = workers s))
       \<and> (pc s = MDone \<longrightarrow>
            in_flight s = 0 \<and> workers s = 0 \<and> map pod_of (goroutines s) = pods
            \<and> (\<forall>g \<in> set (goroutines s). \<exists>p. g = GExit p))
       \<and> (1 \<le> c \<longrightarrow>
            (\<exists>acts' s'. exec w (acts @ acts') (fan_out c tok pods tr) = Some s'
                        \<and> pc s' = MDone))"
proof -
  from exec_inv [OF fan_out_inv assms]
  have inv: "sched_inv s" and sl: "slots s = c" and tg: "targets s = pods"
    by (simp_all add: fan_out_def targets_def)
  from inv have np: "pc s \<noteq> MPanic" and wk: "workers s = in_flight s + sent (pc s)"
    and le: "workers s \<le> slots s"
    by (simp_all add: sched_inv_def)
  have a: "in_flight s \<le> c"
    using wk le sl by simp
  have b: "fire w Main s = None \<longleftrightarrow> in_flight s = c" if "pc s = MSend p ps" for p ps
    using that np wk le sl by (auto simp: fire_def main_step_def)
  have r: "\<exists>s'. fire w (Go i) s = Some s' \<and> Suc (in_flight s') = in_flight s
                  \<and> Suc (workers s') = workers s"
    if "i < length (goroutines s) \<and> goroutines s ! i = GRelease p" for i p
  proof -
    from that have i: "i < length (goroutines s)" and g: "goroutines s ! i = GRelease p"
      by simp_all
    from nat_sum_elem [OF i, of holds_slot] g have pos: "0 < in_flight s"
      by (simp add: in_flight_def)
    with wk have "workers s \<noteq> 0"
      by simp
    with np i g pos show ?thesis
      by (simp add: fire_def goroutine_step_def set_goroutine_def in_flight_def nat_sum_update)
  qed
  have d: "in_flight s = 0 \<and> workers s = 0 \<and> map pod_of (goroutines s) = pods
            \<and> (\<forall>g \<in> set (goroutines s). \<exists>p. g = GExit p)" if "pc s = MDone"
    using done_total(2,3) [OF inv that] all_exited [OF inv that] tg that
    by (simp add: targets_def)
  have f: "\<exists>acts' s'. exec w (acts @ acts') (fan_out c tok pods tr) = Some s' \<and> pc s' = MDone"
    if "1 \<le> c"
    using that assms by (rule exec_can_finish)
  from a b r d f show ?thesis
    by blast
qed

theorem at_most_c_in_flight_witness:
  "map_option pc (exec world_up schedule_to_full (fan_out 1 ''abc'' [''client-a'', ''client-b''] []))
     = Some (MSend ''client-b'' [])
   \<and> map_option in_flight
        (exec world_up schedule_to_full (fan_out 1 ''abc'' [''client-a'', ''client-b''] []))
       = Some 1
   \<and> exec world_up (schedule_to_full @ [Main]) (fan_out 1 ''abc'' [''client-a'', ''client-b''] [])
       = None
   \<and> map_option in_flight
        (exec world_up schedule_to_release (fan_out 1 ''abc'' [''client-a'', ''client-b''] []))
       = Some 0
   \<and> exec world_up (schedule_to_release @ [Main])
        (fan_out 1 ''abc'' [''client-a'', ''client-b''] []) \<noteq> None
   \<and> map_option workers
        (exec world_up schedule_sequential (fan_out 100 ''abc'' three_pods [])) = Some 0"
proof -
  let ?s0 = "fan_out 1 ''abc'' [''client-a'', ''client-b''] []"
  obtain s where e: "exec world_up schedule_to_full ?s0 = Some s"
    and p: "pc s = MSend ''client-b'' []" and n: "in_flight s = 1"
    by (simp add: schedule_to_full_def run_defs in_flight_def)
  have blocked: "fire world_up Main s = None"
    using at_most_c_in_flight [OF e] p n by simp
  obtain s1 where e1: "exec world_up (butlast schedule_to_release) ?s0 = Some s1"
    and p1: "pc s1 = MSend ''client-b'' []" and n1: "in_flight s1 = 1"
    and g1: "0 < length (goroutines s1) \<and> goroutines s1 ! 0 = GRelease ''client-a''"
    by (simp add: schedule_to_release_def run_defs world_up_a in_flight_def)
  from at_most_c_in_flight [OF e1] g1 obtain s2 where f2: "fire world_up (Go 0) s1 = Some s2"
    and n2: "Suc (in_flight s2) = in_flight s1"
    by blast
  have sr: "schedule_to_release = butlast schedule_to_release @ [Go 0]"
    by (simp add: schedule_to_release_def)
  have e2: "exec world_up schedule_to_release ?s0 = Some s2"
    using e1 f2 by (subst sr) (simp add: exec_append)
  have p2: "pc s2 = MSend ''client-b'' []"
    using f2 p1 goroutine_step_pc [of world_up 0 s1 s2]
          exec_inv [OF fan_out_inv e2]
    by (auto simp: fire_def sched_inv_def split: if_splits)
  have free: "fire world_up Main s2 \<noteq> None"
    using at_most_c_in_flight [OF e2] p2 n2 n1 by simp
  obtain s3 where e3: "exec world_up schedule_sequential (fan_out 100 ''abc'' three_pods []) = Some s3"
    and d3: "pc s3 = MDone"
    by (simp add: schedule_sequential_def three_pods_def run_defs world_up_a world_up_b
                  world_up_c)
  have w3: "workers s3 = 0"
    using at_most_c_in_flight [OF e3] d3 by simp
  show ?thesis
    using e p n blocked e2 n2 n1 free e3 w3 by (auto simp: exec_append)
qed

section \<open>Properties of main\<close>

lemma getPods_result: "fst (getPods w s) = discovered w"
  by (simp add: discovered_def getPods_def Let_def split: sum.splits)

lemma discovered_None:
  assumes "discovered w = (pods, None)"
  shows "snd (getPods w s)
           = s\<lparr>log := log s @ [Print FetchingRunningPods, Exec get_pods_cmd,
                                 Print (RunningPodsFound pods)]\<rparr>"
  using assms
  by (auto simp: discovered_def getPods_def Let_def split: sum.splits)

lemma discovered_Some:
  assumes "snd (discovered w) = Some e"
  shows "execs (log (snd (getPods w s))) = execs (log s) @ [get_pods_cmd]"
    and "\<forall>n. Print (TotalCounted n) \<notin> set (log (snd (getPods w s))) - set (log s)"
  by (auto simp: getPods_def Let_def execs_append split: sum.splits)

lemma fetch_cases: "(\<exists>e. fetch_fails w e) \<or> (\<exists>r. fetch_gives w r)"
proof (cases "cmd_output w get_token_cmd")
  case (Inl e)
  then have "fetch_fails w e"
    by (simp add: fetch_fails_def)
  then show ?thesis
    by blast
next
  case (Inr out)
  show ?thesis
  proof (cases "json_unmarshal w out")
    case (Inl e)
    with Inr have "fetch_fails w e"
      by (simp add: fetch_fails_def)
    then show ?thesis
      by blast
  next
    case r: (Inr r)
    with Inr have "fetch_gives w r"
      by (simp add: fetch_gives_def)
    then show ?thesis
      by blast
  qed
qed

lemma main_start_discovery_fails:
  assumes "snd (discovered w) = Some e"
  shows "\<exists>p. main_start w proc0 = Inl p \<and> execs (log p) = [get_pods_cmd]
            \<and> last (log p) = Print (ErrorFetchingPods e)
            \<and> (\<forall>n. Print (TotalCounted n) \<notin> set (log p))"
  using assms discovered_Some [OF assms, of "proc0\<lparr>log := [Print Starting]\<rparr>"]
  by (auto simp: main_start_def Let_def getPods_result proc0_def execs_append)

lemma main_start_token_fails:
  assumes "discovered w = (pods, None)" and "fetch_fails w e"
  shows "main_start w proc0
           = Inl \<lparr>tokenCache = None, clock_reads = 0,
                  log = prologue pods @ [Print (ErrorFetchingToken e)]\<rparr>"
  using assms
  by (auto simp: main_start_def Let_def getPods_result discovered_None proc0_def
                 getToken_def fetch_token_def cache_valid_def fetch_fails_def prologue_def
           split: sum.splits)

lemma main_start_ok:
  assumes "discovered w = (pods, None)" and "fetch_gives w r"
  shows "main_start w proc0
           = Inr (fan_out maxConcurrentConnections (Token r) pods
                    (prologue pods @ [Print (NewTokenCached (time_now_unix w 0 + 300))]))"
  using assms
  by (auto simp: main_start_def Let_def getPods_result discovered_None proc0_def
                 getToken_def fetch_token_def cache_valid_def fetch_gives_def prologue_def
                 Seconds_cacheTTL
           split: sum.splits)

lemma execs_prologue: "execs (prologue pods) = [get_pods_cmd, get_token_cmd]"
  by (simp add: prologue_def)

lemma probe_cmd_not_others:
  shows "probe_cmd p tok \<noteq> get_token_cmd" and "probe_cmd p tok \<noteq> get_pods_cmd"
  by (simp_all add: probe_cmd_def get_token_cmd_def get_pods_cmd_def)

lemma probe_runs_none:
  assumes "\<forall>p. probe_cmd p tok \<noteq> c"
  shows "sum_list (map (probe_runs tok c) gs) = 0"
proof (rule sum_list_all_zero, rule ballI)
  fix g
  from assms show "probe_runs tok c g = 0"
    by (cases g) simp_all
qed

lemma exec_counts:
  assumes "exec w acts (fan_out c tok pods tr) = Some s"
  shows "int (count_list (execs (trace s)) cmd)
           = int (count_list (execs tr) cmd)
             + sum_list (map (probe_runs tok cmd) (goroutines s))"
proof -
  from exec_inv [OF fan_out_inv assms] have "token s = tok"
    by (simp add: fan_out_def)
  moreover from exec_runs [OF fan_out_inv assms, of cmd]
  have "other_runs cmd s = other_runs cmd (fan_out c tok pods tr)"
    by simp
  ultimately show ?thesis
    by (simp add: other_runs_def fan_out_def)
qed

lemma exec_done_counts:
  assumes "exec w acts (fan_out c tok pods tr) = Some s" and "pc s = MDone"
  shows "count_list (execs (trace s)) cmd
           = count_list (execs tr) cmd + count_list (map (\<lambda>p. probe_cmd p tok) pods) cmd"
proof -
  from exec_inv [OF fan_out_inv assms(1)]
  have inv: "sched_inv s" and tg: "targets s = pods"
    by (simp_all add: fan_out_def targets_def)
  from tg assms(2) have pods: "map pod_of (goroutines s) = pods"
    by (simp add: targets_def)
  from probe_runs_exited [OF all_exited [OF inv assms(2)], of tok cmd] pods
  have "sum_list (map (probe_runs tok cmd) (goroutines s))
          = int (count_list (map (\<lambda>p. probe_cmd p tok) pods) cmd)"
    by simp
  with exec_counts [OF assms(1), of cmd] show ?thesis
    by simp
qed

text \<open>
  C10. In every run where discovery succeeds, the trace of main starts with the
  discovery command and then the one token fetch, before anything else is run; whatever
  the pods, also when there are none. When the fetch fails, main returns there: the
  last line printed is the token error, and no total is printed. When it succeeds, the
  fan-out starts from that trace, and nothing any run appends to it fetches a token
  again.
\<close>

theorem token_acquired_once_before_probes:
  assumes "discovered w = (pods, None)"
  shows "execs (prologue pods) = [get_pods_cmd, get_token_cmd]
       \<and> ((\<exists>e. fetch_fails w e) \<or> (\<exists>r. fetch_gives w r))
       \<and> (\<forall>e. fetch_fails w e \<longrightarrow>
            main_start w proc0
              = Inl \<lparr>tokenCache = None, clock_reads = 0,
                     log = prologue pods @ [Print (ErrorFetchingToken e)]\<rparr>)
       \<and> (\<forall>r. fetch_gives w r \<longrightarrow>
            (\<exists>s0. main_start w proc0 = Inr s0
                 \<and> (\<forall>acts s. exec w acts s0 = Some s \<longrightarrow>
                       (\<exists>evs. trace s = prologue pods @ evs
                             \<and> get_token_cmd \<notin> set (execs evs)
                             \<and> get_pods_cmd \<notin> set (execs evs)))))"
proof (intro conjI allI impI)
  show "execs (prologue pods) = [get_pods_cmd, get_token_cmd]"
    by (rule execs_prologue)
  show "(\<exists>e. fetch_fails w e) \<or> (\<exists>r. fetch_gives w r)"
    by (rule fetch_cases)
next
  fix e
  assume "fetch_fails w e"
  with assms show "main_start w proc0
              = Inl \<lparr>tokenCache = None, clock_reads = 0,
                     log = prologue pods @ [Print (ErrorFetchingToken e)]\<rparr>"
    by (rule main_start_token_fails)
next
  fix r
  assume r: "fetch_gives w r"
  let ?tr = "prologue pods @ [Print (NewTokenCached (time_now_unix w 0 + 300))]"
  let ?s0 = "fan_out maxConcurrentConnections (Token r) pods ?tr"
  have "\<exists>evs. trace s = prologue pods @ evs \<and> get_token_cmd \<notin> set (execs evs)
             \<and> get_pods_cmd \<notin> set (execs evs)"
    if ex: "exec w acts ?s0 = Some s" for acts s
  proof -
    from exec_runs [OF fan_out_inv ex, of get_token_cmd]
    obtain evs where evs: "trace s = ?tr @ evs"
      by (auto simp: fan_out_def)
    have c: "count_list (execs (trace s)) cmd = count_list (execs ?tr) cmd"
      if "\<forall>p. probe_cmd p (Token r) \<noteq> cmd" for cmd
      using exec_counts [OF ex, of cmd] probe_runs_none [OF that] by simp
    have nt: "\<forall>p. probe_cmd p (Token r) \<noteq> get_token_cmd"
      and np: "\<forall>p. probe_cmd p (Token r) \<noteq> get_pods_cmd"
      by (simp_all add: probe_cmd_not_others)
    have "count_list (execs evs) get_token_cmd = 0"
      using c [OF nt] evs by (simp add: execs_append count_list_append)
    moreover have "count_list (execs evs) get_pods_cmd = 0"
      using c [OF np] evs by (simp add: execs_append count_list_append)
    ultimately show ?thesis
      using evs by (simp add: count_list_0_iff execs_append)
  qed
  with main_start_ok [OF assms r]
  show "\<exists>s0. main_start w proc0 = Inr s0
                 \<and> (\<forall>acts s. exec w acts s0 = Some s \<longrightarrow>
                       (\<exists>evs. trace s = prologue pods @ evs
                             \<and> get_token_cmd \<notin> set (execs evs)
                             \<and> get_pods_cmd \<notin> set (execs evs)))"
    by blast
qed


lemma discovered_world_up: "discovered world_up = (three_pods, None)"
proof -
  have "scan_pods [] (split_lines pods_table) = (eligible_names (rows pods_table), None)"
    using pods_table_short by (simp add: scan_pods_eq scanned_all rows_def)
  then show ?thesis
    by (simp add: discovered_def getPods_def Let_def world_up_pods pods_table_names
                  three_pods_def)
qed

lemma discovered_no_pods:
  shows "discovered world_no_pods = ([], None)"
    and "discovered world_no_pods_no_token = ([], None)"
  by (simp_all add: discovered_def getPods_def Let_def world_no_pods_def
                    world_no_pods_no_token_def split_lines.simps)

lemma discovered_world_down: "discovered world_down = ([], Some (ExecError ''exit status 1''))"
  by (simp add: discovered_def getPods_def Let_def world_down_def)

lemma fetch_world_up: "fetch_gives world_up \<lparr>Token = ''abc'', Expiry = 1\<rparr>"
  by (simp add: fetch_gives_def world_up_def get_token_cmd_def get_pods_cmd_def)

lemma fetch_no_pods: "fetch_gives world_no_pods \<lparr>Token = ''abc'', Expiry = 1\<rparr>"
  by (simp add: fetch_gives_def world_no_pods_def get_token_cmd_def get_pods_cmd_def)

lemma fetch_no_token: "fetch_fails world_no_pods_no_token (ExecError ''exit status 255'')"
  by (simp add: fetch_fails_def world_no_pods_no_token_def get_token_cmd_def get_pods_cmd_def)

lemma main_start_world_up:
  "main_start world_up proc0
     = Inr (fan_out 100 ''abc'' three_pods
              (prologue three_pods @ [Print (NewTokenCached 2300)]))"
  using main_start_ok [OF discovered_world_up fetch_world_up]
  by (simp add: maxConcurrentConnections_def world_up_def)

theorem token_acquired_once_before_probes_witness:
  "discovered world_no_pods_no_token = ([], None)
   \<and> fetch_fails world_no_pods_no_token (ExecError ''exit status 255'')
   \<and> main_start world_no_pods_no_token proc0
       = Inl \<lparr>tokenCache = None, clock_reads = 0,
              log = prologue [] @ [Print (ErrorFetchingToken (ExecError ''exit status 255''))]\<rparr>
   \<and> discovered world_up = (three_pods, None)
   \<and> fetch_gives world_up \<lparr>Token = ''abc'', Expiry = 1\<rparr>
   \<and> map_option (\<lambda>s. execs (trace s))
        (exec world_up schedule_interleaved
           (fan_out 100 ''abc'' three_pods (prologue three_pods @ [Print (NewTokenCached 2300)])))
       = Some [get_pods_cmd, get_token_cmd, probe_cmd ''client-c'' ''abc'',
               probe_cmd ''client-a'' ''abc'', probe_cmd ''client-b'' ''abc'']"
proof -
  let ?s0 = "fan_out 100 ''abc'' three_pods (prologue three_pods @ [Print (NewTokenCached 2300)])"
  have a: "main_start world_no_pods_no_token proc0
       = Inl \<lparr>tokenCache = None, clock_reads = 0,
              log = prologue [] @ [Print (ErrorFetchingToken (ExecError ''exit status 255''))]\<rparr>"
    using token_acquired_once_before_probes [OF discovered_no_pods(2)] fetch_no_token
    by blast
  obtain s where e: "exec world_up schedule_interleaved ?s0 = Some s"
    and t: "execs (trace s) = [get_pods_cmd, get_token_cmd, probe_cmd ''client-c'' ''abc'',
               probe_cmd ''client-a'' ''abc'', probe_cmd ''client-b'' ''abc'']"
    by (simp add: schedule_interleaved_def three_pods_def run_defs world_up_a world_up_b
                  world_up_c prologue_def count_begin_def)
  from token_acquired_once_before_probes [OF discovered_world_up] fetch_world_up
  obtain s0 where "main_start world_up proc0 = Inr s0"
    and l: "\<forall>acts s. exec world_up acts s0 = Some s \<longrightarrow>
              (\<exists>evs. trace s = prologue three_pods @ evs
                    \<and> get_token_cmd \<notin> set (execs evs) \<and> get_pods_cmd \<notin> set (execs evs))"
    by blast
  then have "s0 = ?s0"
    by (simp add: main_start_world_up)
  with l e have "\<exists>evs. trace s = prologue three_pods @ evs
                    \<and> get_token_cmd \<notin> set (execs evs) \<and> get_pods_cmd \<notin> set (execs evs)"
    by blast
  with a e t show ?thesis
    by (simp add: discovered_no_pods fetch_no_token discovered_world_up fetch_world_up)
qed

text \<open>
  C4. When discovery fails, main returns after the discovery command: nothing else is
  run and no total is printed. When the token fetch fails, main returns after the
  fetch: no probe is run and no total is printed. A probe failure is not fatal: the
  goroutine that receives it prints it and goes on to release its slot, and nothing
  else in the state changes; the run can still be continued until main returns, and
  then the total is the sum of the counts of the probes that succeeded, and every pod's
  probe command has run exactly once.
\<close>

theorem fatal_errors_abort_probe_failures_do_not:
  "(\<forall>e. snd (discovered w) = Some e \<longrightarrow>
      (\<exists>p. main_start w proc0 = Inl p \<and> execs (log p) = [get_pods_cmd]
          \<and> last (log p) = Print (ErrorFetchingPods e)
          \<and> (\<forall>n. Print (TotalCounted n) \<notin> set (log p))))
 \<and> (\<forall>pods e. discovered w = (pods, None) \<and> fetch_fails w e \<longrightarrow>
      main_start w proc0
        = Inl \<lparr>tokenCache = None, clock_reads = 0,
               log = prologue pods @ [Print (ErrorFetchingToken e)]\<rparr>)
 \<and> (\<forall>c tok pods tr acts s.
      1 \<le> c \<and> exec w acts (fan_out c tok pods tr) = Some s \<longrightarrow>
        (\<forall>i p e. i < length (goroutines s) \<and> goroutines s ! i = GProbe p
                \<and> fst (count_end w p tok) = Inl e \<longrightarrow>
           fire w (Go i) s
             = Some (s\<lparr>goroutines := (goroutines s)[i := GRelease p],
                       trace := trace s @ [Print (FailedCount p e)]\<rparr>))
      \<and> (\<exists>acts' s'. exec w (acts @ acts') (fan_out c tok pods tr) = Some s' \<and> pc s' = MDone)
      \<and> (pc s = MDone \<longrightarrow>
           totalTCPConnections s = sum_list (successes w tok pods)
         \<and> (\<forall>cmd. count_list (execs (trace s)) cmd
                    = count_list (execs tr) cmd
                      + count_list (map (\<lambda>p. probe_cmd p tok) pods) cmd)))"
proof (intro conjI allI impI)
  fix e
  assume "snd (discovered w) = Some e"
  then show "\<exists>p. main_start w proc0 = Inl p \<and> execs (log p) = [get_pods_cmd]
          \<and> last (log p) = Print (ErrorFetchingPods e)
          \<and> (\<forall>n. Print (TotalCounted n) \<notin> set (log p))"
    by (rule main_start_discovery_fails)
next
  fix pods e
  assume "discovered w = (pods, None) \<and> fetch_fails w e"
  then show "main_start w proc0
        = Inl \<lparr>tokenCache = None, clock_reads = 0,
               log = prologue pods @ [Print (ErrorFetchingToken e)]\<rparr>"
    by (intro main_start_token_fails) simp_all
next
  fix c tok pods tr acts s i p e
  assume h: "1 \<le> c \<and> exec w acts (fan_out c tok pods tr) = Some s"
    and g: "i < length (goroutines s) \<and> goroutines s ! i = GProbe p
                \<and> fst (count_end w p tok) = Inl e"
  from h exec_inv [OF fan_out_inv, of w acts c tok pods tr s]
  have "pc s \<noteq> MPanic" and "token s = tok"
    by (simp_all add: sched_inv_def fan_out_def)
  moreover from g have "snd (count_end w p tok) = []"
    by (auto simp: count_end_def split: sum.splits)
  ultimately show "fire w (Go i) s
             = Some (s\<lparr>goroutines := (goroutines s)[i := GRelease p],
                       trace := trace s @ [Print (FailedCount p e)]\<rparr>)"
    using g by (simp add: fire_def goroutine_step_def set_goroutine_def)
next
  fix c tok pods tr acts s
  assume h: "1 \<le> c \<and> exec w acts (fan_out c tok pods tr) = Some s"
  then show "\<exists>acts' s'. exec w (acts @ acts') (fan_out c tok pods tr) = Some s' \<and> pc s' = MDone"
    by (intro exec_can_finish) simp_all
next
  fix c tok pods tr acts s
  assume h: "1 \<le> c \<and> exec w acts (fan_out c tok pods tr) = Some s" and d: "pc s = MDone"
  from h have "exec w acts (fan_out c tok pods tr) = Some s"
    by simp
  then show "totalTCPConnections s = sum_list (successes w tok pods)"
    using d by (rule exec_done_total)
next
  fix c tok pods tr acts s cmd
  assume h: "1 \<le> c \<and> exec w acts (fan_out c tok pods tr) = Some s" and d: "pc s = MDone"
  from h have "exec w acts (fan_out c tok pods tr) = Some s"
    by simp
  then show "count_list (execs (trace s)) cmd
                    = count_list (execs tr) cmd
                      + count_list (map (\<lambda>p. probe_cmd p tok) pods) cmd"
    using d by (rule exec_done_counts)
qed

theorem fatal_errors_abort_probe_failures_do_not_witness:
  "snd (discovered world_down) = Some (ExecError ''exit status 1'')
   \<and> main_start world_down proc0
       = Inl \<lparr>tokenCache = None, clock_reads = 0,
              log = [Print Starting, Print FetchingRunningPods, Exec get_pods_cmd,
                     Print (ErrorFetchingPods (ExecError ''exit status 1''))]\<rparr>
   \<and> discovered world_no_pods_no_token = ([], None)
   \<and> fetch_fails world_no_pods_no_token (ExecError ''exit status 255'')
   \<and> main_start world_no_pods_no_token proc0
       = Inl \<lparr>tokenCache = None, clock_reads = 0,
              log = prologue [] @ [Print (ErrorFetchingToken (ExecError ''exit status 255''))]\<rparr>
   \<and> map_option (\<lambda>s. goroutines s ! 1)
        (exec world_up schedule_probing (fan_out 100 ''abc'' three_pods []))
       = Some (GProbe ''client-b'')
   \<and> map_option (\<lambda>s. (goroutines s, pc s, totalTCPConnections s, drop 6 (trace s)))
        (exec world_up (schedule_probing @ [Go 1]) (fan_out 100 ''abc'' three_pods []))
       = Some ([GProbe ''client-a'', GRelease ''client-b'', GProbe ''client-c''], MWait, 0,
               [Print (FailedCount ''client-b'' (ExecError ''exit status 1''))])
   \<and> map_option (\<lambda>s. (pc s, totalTCPConnections s))
        (exec world_up schedule_interleaved (fan_out 100 ''abc'' three_pods []))
       = Some (MDone, 12)"
proof -
  let ?s0 = "fan_out 100 ''abc'' three_pods []"
  have c: "(1 :: nat) \<le> 100"
    by simp
  have df: "snd (discovered world_down) = Some (ExecError ''exit status 1'')"
    by (simp add: discovered_world_down)
  from fatal_errors_abort_probe_failures_do_not [of world_down] df
  obtain p where "main_start world_down proc0 = Inl p" and "execs (log p) = [get_pods_cmd]"
    by blast
  then have a: "main_start world_down proc0
       = Inl \<lparr>tokenCache = None, clock_reads = 0,
              log = [Print Starting, Print FetchingRunningPods, Exec get_pods_cmd,
                     Print (ErrorFetchingPods (ExecError ''exit status 1''))]\<rparr>"
    by (simp add: main_start_def Let_def getPods_def world_down_def proc0_def)
  have b: "main_start world_no_pods_no_token proc0
       = Inl \<lparr>tokenCache = None, clock_reads = 0,
              log = prologue [] @ [Print (ErrorFetchingToken (ExecError ''exit status 255''))]\<rparr>"
    using fatal_errors_abort_probe_failures_do_not [of world_no_pods_no_token]
          discovered_no_pods(2) fetch_no_token
    by blast
  obtain s where e: "exec world_up schedule_probing ?s0 = Some s"
    and g: "1 < length (goroutines s) \<and> goroutines s ! 1 = GProbe ''client-b''"
    and gs: "goroutines s = [GProbe ''client-a'', GProbe ''client-b'', GProbe ''client-c'']"
    and rest: "pc s = MWait" "totalTCPConnections s = 0" "length (trace s) = 6"
    by (simp add: schedule_probing_def schedule_interleaved_def three_pods_def run_defs
                  count_begin_def)
  have f: "fst (count_end world_up ''client-b'' ''abc'') = Inl (ExecError ''exit status 1'')"
    by (simp add: world_up_b)
  from fatal_errors_abort_probe_failures_do_not [of world_up] c e g f
  have step: "fire world_up (Go 1) s
      = Some (s\<lparr>goroutines := (goroutines s)[1 := GRelease ''client-b''],
                trace := trace s @ [Print (FailedCount ''client-b'' (ExecError ''exit status 1''))]\<rparr>)"
    by blast
  obtain s2 where e2: "exec world_up schedule_interleaved ?s0 = Some s2" and d2: "pc s2 = MDone"
    by (simp add: schedule_interleaved_def three_pods_def run_defs world_up_a world_up_b
                  world_up_c)
  from fatal_errors_abort_probe_failures_do_not [of world_up] c e2 d2
  have "totalTCPConnections s2 = sum_list (successes world_up ''abc'' three_pods)"
    by blast
  then have t2: "totalTCPConnections s2 = 12"
    by (simp add: successes_world_up)
  show ?thesis
    using df a b e g gs rest step e2 d2 t2
    by (simp add: exec_append discovered_no_pods fetch_no_token)
qed

subsection \<open>No targets\<close>

lemma count_list_all_zero:
  assumes "\<forall>c. count_list xs c = 0"
  shows "xs = []"
  using assms by (cases xs) (auto split: if_splits)

text \<open>
  C6, as the code has it. If discovery succeeds with zero targets and the token fetch
  succeeds, the fan-out starts with nothing to do: in every state any run reaches, the
  commands run are the discovery and the token fetch only (no probe), there is no
  goroutine and the total is 0; two steps of main end the run, which prints the total 0.
\<close>

theorem no_targets_no_probes:
  assumes "discovered w = ([], None)" and "fetch_gives w r"
  shows "\<exists>s0. main_start w proc0 = Inr s0
          \<and> (\<forall>acts s. exec w acts s0 = Some s \<longrightarrow>
                execs (trace s) = [get_pods_cmd, get_token_cmd]
              \<and> goroutines s = [] \<and> totalTCPConnections s = 0)
          \<and> (\<exists>s. exec w [Main, Main] s0 = Some s \<and> pc s = MDone
                \<and> trace s = trace s0 @ [Print (TotalCounted 0), Print CompletedIn])"
proof -
  let ?tr = "prologue [] @ [Print (NewTokenCached (time_now_unix w 0 + 300))]"
  let ?s0 = "fan_out maxConcurrentConnections (Token r) [] ?tr"
  have s0: "main_start w proc0 = Inr ?s0"
    using assms by (rule main_start_ok)
  have run: "execs (trace s) = [get_pods_cmd, get_token_cmd]
              \<and> goroutines s = [] \<and> totalTCPConnections s = 0"
    if ex: "exec w acts ?s0 = Some s" for acts s
  proof -
    from exec_inv [OF fan_out_inv ex]
    have tg: "targets s = targets ?s0" and due: "total_due w s = total_due w ?s0"
      by simp_all
    from tg have g: "goroutines s = []" and p: "pending (pc s) = []"
      by (simp_all add: targets_def fan_out_def)
    have "total_due w ?s0 = 0"
      by (simp add: fan_out_due successes_def)
    with due have "total_due w s = 0"
      by simp
    with g p have t: "totalTCPConnections s = 0"
      by (simp add: total_due_def)
    from exec_runs [OF fan_out_inv ex, of get_pods_cmd]
    obtain evs where evs: "trace s = ?tr @ evs"
      by (auto simp: fan_out_def)
    have "count_list (execs evs) c = 0" for c
      using exec_counts [OF ex, of c] g evs
      by (simp add: execs_append count_list_append)
    then have "execs evs = []"
      by (intro count_list_all_zero) simp
    with evs g t show ?thesis
      by (simp add: execs_append execs_prologue)
  qed
  have two: "exec w [Main, Main] ?s0
               = Some (?s0\<lparr>pc := MDone,
                           trace := ?tr @ [Print (TotalCounted 0), Print CompletedIn]\<rparr>)"
    by (simp add: run_defs)
  from s0 run two show ?thesis
    by (auto simp: fan_out_def)
qed

text \<open>
  C6 as stated fails: discovery succeeds with zero targets, the token fetch fails, and
  main returns with the token error, having printed no total.
\<close>

theorem no_targets_token_failure_counterexample:
  "discovered world_no_pods_no_token = ([], None)
   \<and> main_start world_no_pods_no_token proc0
       = Inl \<lparr>tokenCache = None, clock_reads = 0,
              log = [Print Starting, Print FetchingRunningPods, Exec get_pods_cmd,
                     Print (RunningPodsFound []), Print FetchingNewToken, Exec get_token_cmd,
                     Print (ErrorFetchingToken (ExecError ''exit status 255''))]\<rparr>"
  using main_start_token_fails [OF discovered_no_pods(2) fetch_no_token]
  by (simp add: discovered_no_pods prologue_def)

theorem no_targets_no_probes_witness:
  "discovered world_no_pods = ([], None)
   \<and> fetch_gives world_no_pods \<lparr>Token = ''abc'', Expiry = 1\<rparr>
   \<and> main_start world_no_pods proc0
       = Inr (fan_out 100 ''abc'' [] (prologue [] @ [Print (NewTokenCached 2300)]))
   \<and> map_option (\<lambda>s. (pc s, totalTCPConnections s, execs (trace s)))
        (exec world_no_pods [Main, Main]
           (fan_out 100 ''abc'' [] (prologue [] @ [Print (NewTokenCached 2300)])))
       = Some (MDone, 0, [get_pods_cmd, get_token_cmd])"
proof -
  let ?s0 = "fan_out 100 ''abc'' [] (prologue [] @ [Print (NewTokenCached 2300)])"
  have m: "main_start world_no_pods proc0 = Inr ?s0"
    using main_start_ok [OF discovered_no_pods(1) fetch_no_pods]
    by (simp add: maxConcurrentConnections_def world_no_pods_def)
  from no_targets_no_probes [OF discovered_no_pods(1) fetch_no_pods]
  obtain s0 where m0: "main_start world_no_pods proc0 = Inr s0"
    and all: "\<forall>acts s. exec world_no_pods acts s0 = Some s \<longrightarrow>
                execs (trace s) = [get_pods_cmd, get_token_cmd]
              \<and> goroutines s = [] \<and> totalTCPConnections s = 0"
    and two: "\<exists>s. exec world_no_pods [Main, Main] s0 = Some s \<and> pc s = MDone
                \<and> trace s = trace s0 @ [Print (TotalCounted 0), Print CompletedIn]"
    by blast
  from m0 m have eq: "s0 = ?s0"
    by simp
  from two obtain s where e: "exec world_no_pods [Main, Main] s0 = Some s" and d: "pc s = MDone"
    by blast
  from all e have "execs (trace s) = [get_pods_cmd, get_token_cmd]"
    and "totalTCPConnections s = 0"
    by blast+
  with m e d eq show ?thesis
    by (simp add: discovered_no_pods fetch_no_pods)
qed

end
